theory Spec2Isabelle
  imports Main "HOL-Library.List_Lexorder" "HOL-Library.AList" "HOL-Library.Multiset"
begin

section \<open>Python strings and lists\<close>

text \<open>
  The generator is one Python module, \<^verbatim>\<open>generate.py\<close>. Strings are lists of
  characters; the versions, tags and paths handled here are ASCII.
\<close>

text \<open>\<^verbatim>\<open>s.split(sep)\<close> for a one-character separator: never empty, \<^verbatim>\<open>''.split('.') == ['']\<close>.\<close>

fun split_on :: "char \<Rightarrow> string \<Rightarrow> string list" where
  "split_on c [] = [[]]"
| "split_on c (x # xs) =
     (if x = c then [] # split_on c xs
      else (case split_on c xs of
              [] \<Rightarrow> [[x]]
            | p # ps \<Rightarrow> (x # p) # ps))"

text \<open>\<^verbatim>\<open>sep.join(parts)\<close>.\<close>

fun join :: "string \<Rightarrow> string list \<Rightarrow> string" where
  "join sep [] = []"
| "join sep [p] = p"
| "join sep (p # q # ps) = p @ sep @ join sep (q # ps)"

text \<open>
  The slice \<^verbatim>\<open>xs[:n]\<close>: a negative stop counts from the end and is clipped at 0, a
  stop beyond the end is clipped at the length.
\<close>

definition slice_to :: "'a list \<Rightarrow> int \<Rightarrow> 'a list" where
  "slice_to xs n =
     (if n < 0 then take (nat (int (length xs) + n)) xs else take (nat n) xs)"

text \<open>\<^verbatim>\<open>str(n)\<close> of a non-negative integer: its decimal digits.\<close>

definition digit_char :: "nat \<Rightarrow> char" where
  "digit_char d = ''0123456789'' ! d"

fun str_nat :: "nat \<Rightarrow> string" where
  "str_nat n = (if n < 10 then [digit_char n] else str_nat (n div 10) @ [digit_char (n mod 10)])"

declare str_nat.simps [simp del]

section \<open>Versions\<close>

text \<open>
  Modelled from the spec: \<^verbatim>\<open>packaging.version.Version\<close> is a third-party class, not
  part of the repository. The spec's artifacts carry numeric release versions
  (major, minor, patch), so a version is its release segment, a list of numbers of any
  length. As in the library, \<^verbatim>\<open>str\<close> joins the numbers with dots, and comparison is
  the tuple comparison of the release with its trailing zeros removed (so \<^verbatim>\<open>1.0\<close> and
  \<^verbatim>\<open>1.0.0\<close> are equal, yet print differently). Epochs, pre-, post-, development and
  local segments are outside the model.
\<close>

datatype version = Version (release: "nat list")

definition version_str :: "version \<Rightarrow> string" where
  "version_str v = join ''.'' (map str_nat (release v))"

fun strip_zeros :: "nat list \<Rightarrow> nat list" where
  "strip_zeros ns = rev (dropWhile (\<lambda>x. x = 0) (rev ns))"

definition cmpkey :: "version \<Rightarrow> nat list" where
  "cmpkey v = strip_zeros (release v)"

text \<open>A parsed version or \<^verbatim>\<open>None\<close>; \<^verbatim>\<open>str(None)\<close> is \<^verbatim>\<open>'None'\<close>.\<close>

fun py_str :: "version option \<Rightarrow> string" where
  "py_str None = ''None''"
| "py_str (Some v) = version_str v"

text \<open>The exceptions that leave the functions modelled here.\<close>

datatype error =
    TypeError | ValueError | IndexError | InvalidVersion | FileNotFoundError
  | ExternalError string

text \<open>
  \<^verbatim>\<open>a == b\<close> and \<^verbatim>\<open>a < b\<close> on values that are a \<^verbatim>\<open>Version\<close> or \<^verbatim>\<open>None\<close>.
  \<^verbatim>\<open>Version.__eq__\<close> and \<^verbatim>\<open>Version.__lt__\<close> return \<^verbatim>\<open>NotImplemented\<close> for
  \<^verbatim>\<open>None\<close>, so equality falls back to identity and ordering raises \<^verbatim>\<open>TypeError\<close>;
  \<^verbatim>\<open>None < None\<close> raises as well.
\<close>

fun py_eq :: "version option \<Rightarrow> version option \<Rightarrow> bool" where
  "py_eq None None = True"
| "py_eq (Some a) (Some b) = (cmpkey a = cmpkey b)"
| "py_eq _ _ = False"

fun py_lt :: "version option \<Rightarrow> version option \<Rightarrow> error + bool" where
  "py_lt (Some a) (Some b) = Inr (cmpkey a < cmpkey b)"
| "py_lt _ _ = Inl TypeError"

text \<open>
  \<^verbatim>\<open>(a1, a2) < (b1, b2)\<close>: the first position where the two tuples differ (by
  \<^verbatim>\<open>==\<close>) decides by \<^verbatim>\<open><\<close>; tuples equal everywhere are not less.
\<close>

fun tuple_lt ::
  "version option \<times> version option \<Rightarrow> version option \<times> version option \<Rightarrow> error + bool" where
  "tuple_lt (a1, a2) (b1, b2) =
     (if \<not> py_eq a1 b1 then py_lt a1 b1
      else if \<not> py_eq a2 b2 then py_lt a2 b2
      else Inr False)"

section \<open>The version matrix builder\<close>

text \<open>One entry of the list \<^verbatim>\<open>dockerfiles\<close> in \<^verbatim>\<open>travis_yaml_add_stages\<close>.\<close>

record dockerfile =
  dockerfile_path :: string
  python_version :: "version option"
  node_version :: "version option"

text \<open>The sort key \<^verbatim>\<open>lambda x: (x['python_version'], x['node_version'])\<close>.\<close>

definition version_key :: "dockerfile \<Rightarrow> version option \<times> version option" where
  "version_key x = (python_version x, node_version x)"

text \<open>
  \<^verbatim>\<open>list.sort\<close> is a stable comparison sort that only uses \<^verbatim>\<open><\<close> on the keys; an
  exception raised by a comparison leaves the sort. It is modelled as the stable
  insertion sort: each element, from left to right, goes behind every element that is
  not greater than it.
\<close>

fun insort_df :: "dockerfile \<Rightarrow> dockerfile list \<Rightarrow> error + dockerfile list" where
  "insort_df x [] = Inr [x]"
| "insort_df x (y # ys) =
     (case tuple_lt (version_key x) (version_key y) of
        Inl e \<Rightarrow> Inl e
      | Inr True \<Rightarrow> Inr (x # y # ys)
      | Inr False \<Rightarrow>
          (case insort_df x ys of
             Inl e \<Rightarrow> Inl e
           | Inr zs \<Rightarrow> Inr (y # zs)))"

fun sort_into :: "dockerfile list \<Rightarrow> dockerfile list \<Rightarrow> error + dockerfile list" where
  "sort_into acc [] = Inr acc"
| "sort_into acc (x # xs) =
     (case insort_df x acc of
        Inl e \<Rightarrow> Inl e
      | Inr acc' \<Rightarrow> sort_into acc' xs)"

definition sort_dockerfiles :: "dockerfile list \<Rightarrow> error + dockerfile list" where
  "sort_dockerfiles dfs = sort_into [] dfs"

text \<open>\<^verbatim>\<open>dockerfiles.sort(key=...)\<close> followed by \<^verbatim>\<open>dockerfiles.reverse()\<close>.\<close>

definition sort_reverse :: "dockerfile list \<Rightarrow> error + dockerfile list" where
  "sort_reverse dfs =
     (case sort_dockerfiles dfs of
        Inl e \<Rightarrow> Inl e
      | Inr ascending \<Rightarrow> Inr (rev ascending))"

text \<open>The inner function \<^verbatim>\<open>strip_version(version, n=0)\<close>.\<close>

definition strip_version :: "version option \<Rightarrow> int \<Rightarrow> string" where
  "strip_version version n =
     (if n = 0 then join ''.'' (split_on CHR ''.'' (py_str version))
      else join ''.'' (slice_to (split_on CHR ''.'' (py_str version)) n))"

text \<open>The key computed in the loop body of \<^verbatim>\<open>group_by_version\<close>.\<close>

definition tag_key :: "int \<Rightarrow> int \<Rightarrow> dockerfile \<Rightarrow> string" where
  "tag_key py_offset node_offset df =
     concat [strip_version (python_version df) py_offset,
             ''-'',
             strip_version (node_version df) node_offset]"

text \<open>
  A \<^verbatim>\<open>dict\<close> keeps its keys in insertion order: an association list with distinct
  keys. \<^verbatim>\<open>group_by_version\<close> adds a key only when it is not in \<^verbatim>\<open>group\<close> yet.
\<close>

definition group_step ::
  "int \<Rightarrow> int \<Rightarrow> (string \<times> string) list \<Rightarrow> dockerfile \<Rightarrow> (string \<times> string) list" where
  "group_step py_offset node_offset grp df =
     (let key = tag_key py_offset node_offset df
      in if key \<notin> set (map fst grp) then grp @ [(key, dockerfile_path df)] else grp)"

definition group_by_version ::
  "dockerfile list \<Rightarrow> int \<Rightarrow> int \<Rightarrow> (string \<times> string) list" where
  "group_by_version dockerfiles py_offset node_offset =
     foldl (group_step py_offset node_offset) [] dockerfiles"

definition options :: "int list" where
  "options = [-2, -1, 0]"

text \<open>
  The body of the loop over \<^verbatim>\<open>group_by_version(t[0], t[1]).items()\<close>: a file seen
  for the first time gets the list \<^verbatim>\<open>[tag]\<close>, otherwise the tag is appended to its list.
\<close>

definition add_tag ::
  "(string \<times> string list) list \<Rightarrow> string \<times> string \<Rightarrow> (string \<times> string list) list" where
  "add_tag dockerfile_tags item =
     (case item of (tag, dockerfile) \<Rightarrow>
        (if dockerfile \<notin> set (map fst dockerfile_tags)
         then dockerfile_tags @ [(dockerfile, [tag])]
         else AList.map_entry dockerfile (\<lambda>tags. tags @ [tag]) dockerfile_tags))"

text \<open>The loop over \<^verbatim>\<open>itertools.product(options, options)\<close>, on the sorted list.\<close>

definition collect_tags :: "dockerfile list \<Rightarrow> (string \<times> string list) list" where
  "collect_tags dockerfiles =
     foldl (\<lambda>dockerfile_tags t.
              foldl add_tag dockerfile_tags (group_by_version dockerfiles (fst t) (snd t)))
       [] (List.product options options)"

text \<open>
  The builder on the list of entries read from the files: sort, reverse, collect.
\<close>

definition build_tags :: "dockerfile list \<Rightarrow> error + (string \<times> string list) list" where
  "build_tags dfs =
     (case sort_reverse dfs of
        Inl e \<Rightarrow> Inl e
      | Inr dockerfiles \<Rightarrow> Inr (collect_tags dockerfiles))"

section \<open>Reading the versions of a Dockerfile\<close>

text \<open>
  A file system holds the text of each file, as \<^verbatim>\<open>open(path, 'r')\<close> reads it, the
  directories that exist, and what has been printed.
\<close>

record filesystem =
  files :: "string \<rightharpoonup> string"
  dirs :: "string set"
  stdout :: "string list"

text \<open>Iterating over an open text file: the lines, each with its line feed.\<close>

fun py_lines :: "string \<Rightarrow> string list" where
  "py_lines [] = []"
| "py_lines (c # cs) =
     (if c = CHR 0x0A then [c] # py_lines cs
      else (case py_lines cs of
              [] \<Rightarrow> [[c]]
            | l # ls \<Rightarrow> (c # l) # ls))"

text \<open>\<^verbatim>\<open>s.split()\<close>: the maximal runs of characters that are not white space.\<close>

definition is_space :: "char \<Rightarrow> bool" where
  "is_space c \<longleftrightarrow>
     c \<in> set [CHR '' '', CHR 0x09, CHR 0x0A, CHR 0x0B, CHR 0x0C, CHR 0x0D,
               CHR 0x1C, CHR 0x1D, CHR 0x1E, CHR 0x1F, CHR 0x85, CHR 0xA0]"

fun words_from :: "string \<Rightarrow> string \<Rightarrow> string list" where
  "words_from cur [] = (if cur = [] then [] else [cur])"
| "words_from cur (c # cs) =
     (if is_space c then (if cur = [] then words_from [] cs else cur # words_from [] cs)
      else words_from (cur @ [c]) cs)"

definition py_split :: "string \<Rightarrow> string list" where
  "py_split s = words_from [] s"

definition startswith :: "string \<Rightarrow> string \<Rightarrow> bool" where
  "startswith s p \<longleftrightarrow> take (length p) s = p"

text \<open>
  Modelled from the spec: the constructor \<^verbatim>\<open>Version(text)\<close> of the third-party
  class, for the release versions of the model: numbers separated by dots. Any other
  text is rejected here; the library also accepts the other segments of its version
  scheme, which the model does not have.
\<close>

definition is_digit :: "char \<Rightarrow> bool" where
  "is_digit c \<longleftrightarrow> c \<in> set ''0123456789''"

definition digit_val :: "char \<Rightarrow> nat" where
  "digit_val c = of_char c - 48"

definition int_of_digits :: "string \<Rightarrow> nat" where
  "int_of_digits s = foldl (\<lambda>n c. 10 * n + digit_val c) 0 s"

definition parse_version :: "string \<Rightarrow> error + version" where
  "parse_version s =
     (let parts = split_on CHR ''.'' s
      in if \<forall>p \<in> set parts. p \<noteq> [] \<and> (\<forall>c \<in> set p. is_digit c)
         then Inr (Version (map int_of_digits parts))
         else Inl InvalidVersion)"

text \<open>
  The loop body of \<^verbatim>\<open>get_versions_from_dockerfile\<close>; the dictionary \<^verbatim>\<open>versions\<close>
  is the pair (python, node). Unpacking \<^verbatim>\<open>line.split()[1:]\<close> into two names raises
  \<^verbatim>\<open>ValueError\<close> unless the line has exactly three words.
\<close>

definition versions_line ::
  "version option \<times> version option \<Rightarrow> string \<Rightarrow> error + (version option \<times> version option)" where
  "versions_line versions line =
     (if startswith line ''ENV'' then
        (case drop 1 (py_split line) of
           [name, version] \<Rightarrow>
             (case (if name = ''PYTHON_VERSION''
                    then (case parse_version version of
                            Inl e \<Rightarrow> Inl e
                          | Inr v \<Rightarrow> Inr (Some v, snd versions))
                    else Inr versions) of
                Inl e \<Rightarrow> Inl e
              | Inr versions' \<Rightarrow>
                  (if name = ''NODE_VERSION''
                   then (case parse_version version of
                           Inl e \<Rightarrow> Inl e
                         | Inr v \<Rightarrow> Inr (fst versions', Some v))
                   else Inr versions'))
         | _ \<Rightarrow> Inl ValueError)
      else Inr versions)"

fun versions_lines ::
  "version option \<times> version option \<Rightarrow> string list \<Rightarrow> error + (version option \<times> version option)" where
  "versions_lines versions [] = Inr versions"
| "versions_lines versions (line # rest) =
     (case versions_line versions line of
        Inl e \<Rightarrow> Inl e
      | Inr versions' \<Rightarrow> versions_lines versions' rest)"

definition get_versions_from_dockerfile ::
  "filesystem \<Rightarrow> string \<Rightarrow> error + (version option \<times> version option)" where
  "get_versions_from_dockerfile fs path =
     (case files fs path of
        None \<Rightarrow> Inl FileNotFoundError
      | Some content \<Rightarrow> versions_lines (None, None) (py_lines content))"

text \<open>The first loop of \<^verbatim>\<open>travis_yaml_add_stages\<close>: one entry per path, in order.\<close>

fun read_dockerfiles :: "filesystem \<Rightarrow> string list \<Rightarrow> error + dockerfile list" where
  "read_dockerfiles fs [] = Inr []"
| "read_dockerfiles fs (p # ps) =
     (case get_versions_from_dockerfile fs p of
        Inl e \<Rightarrow> Inl e
      | Inr versions \<Rightarrow>
          (case read_dockerfiles fs ps of
             Inl e \<Rightarrow> Inl e
           | Inr dfs \<Rightarrow>
               Inr (\<lparr>dockerfile_path = p,
                      python_version = fst versions,
                      node_version = snd versions\<rparr> # dfs)))"

text \<open>Lines 105 to 144: the mapping \<^verbatim>\<open>dockerfile_tags\<close> for the given paths.\<close>

definition dockerfile_tags ::
  "filesystem \<Rightarrow> string list \<Rightarrow> error + (string \<times> string list) list" where
  "dockerfile_tags fs dockerfile_paths =
     (case read_dockerfiles fs dockerfile_paths of
        Inl e \<Rightarrow> Inl e
      | Inr dfs \<Rightarrow> build_tags dfs)"

section \<open>The pipeline stage emitter\<close>

text \<open>
  The document that \<^verbatim>\<open>yaml.safe_load\<close> returns: scalars, lists and dictionaries
  (in insertion order).
\<close>

datatype yaml =
    YNone
  | YBool bool
  | YInt int
  | YStr string
  | YList "yaml list"
  | YDict "(yaml \<times> yaml) list"

text \<open>\<^verbatim>\<open>os.path.dirname\<close> of \<^verbatim>\<open>posixpath\<close>.\<close>

definition rstrip_sep :: "string \<Rightarrow> string" where
  "rstrip_sep s = rev (dropWhile (\<lambda>c. c = CHR ''/'') (rev s))"

definition dirname :: "string \<Rightarrow> string" where
  "dirname p =
     (let head = rev (dropWhile (\<lambda>c. c \<noteq> CHR ''/'') (rev p))
      in if head \<noteq> [] \<and> head \<noteq> replicate (length head) CHR ''/''
         then rstrip_sep head else head)"

definition build_line :: "string \<Rightarrow> string" where
  "build_line path =
     ''travis_retry docker build -t austinpray/python-node '' @ dirname path"

definition tag_line :: "string \<Rightarrow> string" where
  "tag_line tag = ''docker tag austinpray/python-node austinpray/python-node:'' @ tag"

definition push_line :: "string \<Rightarrow> string" where
  "push_line tag =
     ''[ \"$TRAVIS_BRANCH\" = \"master\" ] && docker push austinpray/python-node:'' @ tag"

definition stage_script :: "string \<Rightarrow> string list \<Rightarrow> string list" where
  "stage_script path tags =
     [''set -e'',
      ''echo \"$DOCKER_PASSWORD\" | docker login --username \"$DOCKER_USERNAME\" --password-stdin'',
      ''# run tests'',
      build_line path]
     @ map tag_line tags
     @ map push_line tags"

definition make_build_stage :: "string \<Rightarrow> string list \<Rightarrow> yaml" where
  "make_build_stage path tags =
     YDict [(YStr ''stage'', YStr ''Image Builds''),
            (YStr ''name'', YStr (join '', '' tags)),
            (YStr ''if'', YStr ''type NOT IN (cron)''),
            (YStr ''script'', YList (map YStr (stage_script path tags)))]"

text \<open>
  \<^verbatim>\<open>d[key] = value\<close>: a dictionary replaces the value of a key it has, in place, and
  appends a new key; any other document raises \<^verbatim>\<open>TypeError\<close>.
\<close>

fun setitem :: "yaml \<Rightarrow> yaml \<Rightarrow> yaml \<Rightarrow> error + yaml" where
  "setitem (YDict kvs) key v = Inr (YDict (AList.update key v kvs))"
| "setitem _ key v = Inl TypeError"

definition jobs_value :: "(string \<times> string list) list \<Rightarrow> yaml" where
  "jobs_value tags_of =
     YDict [(YStr ''include'',
             YList (map (\<lambda>(df, tags). make_build_stage df tags) tags_of))]"

definition travis_yaml_add_stages :: "filesystem \<Rightarrow> yaml \<Rightarrow> string list \<Rightarrow> error + yaml" where
  "travis_yaml_add_stages fs travis_dict dockerfile_paths =
     (case dockerfile_tags fs dockerfile_paths of
        Inl e \<Rightarrow> Inl e
      | Inr tags_of \<Rightarrow> setitem travis_dict (YStr ''jobs'') (jobs_value tags_of))"

text \<open>Reading a key of a stage record or of a document: \<^verbatim>\<open>d.get(key)\<close>.\<close>

fun yaml_get :: "yaml \<Rightarrow> string \<Rightarrow> yaml option" where
  "yaml_get (YDict kvs) key = map_of kvs (YStr key)"
| "yaml_get _ key = None"

text \<open>The value found by following a list of keys through nested dictionaries.\<close>

fun yaml_path :: "yaml \<Rightarrow> string list \<Rightarrow> yaml option" where
  "yaml_path d [] = Some d"
| "yaml_path d (key # keys) =
     (case yaml_get d key of
        None \<Rightarrow> None
      | Some v \<Rightarrow> yaml_path v keys)"

text \<open>The kinds of script line of a stage record, told apart by their command.\<close>

definition is_build_command :: "string \<Rightarrow> bool" where
  "is_build_command l \<longleftrightarrow> startswith l ''travis_retry docker build ''"

definition is_tag_command :: "string \<Rightarrow> bool" where
  "is_tag_command l \<longleftrightarrow> startswith l ''docker tag ''"

definition is_push_command :: "string \<Rightarrow> bool" where
  "is_push_command l \<longleftrightarrow> startswith l ''[ \"$TRAVIS_BRANCH\" = \"master\" ] && docker push ''"

section \<open>The generator run\<close>



















section \<open>Notions used in the statements\<close>

text \<open>
  The order as the sort of the code sees it, used in the proofs: \<open>a\<close> is not above
  \<open>b\<close> when \<^verbatim>\<open>key(b) < key(a)\<close> is false; two entries are comparable when comparing
  their keys does not raise.
\<close>

definition key_le :: "dockerfile \<Rightarrow> dockerfile \<Rightarrow> bool" where
  "key_le a b \<longleftrightarrow> tuple_lt (version_key b) (version_key a) = Inr False"

definition comparable :: "dockerfile \<Rightarrow> dockerfile \<Rightarrow> bool" where
  "comparable a b \<longleftrightarrow> tuple_lt (version_key a) (version_key b) \<noteq> Inl TypeError"

text \<open>
  Following the spec's words, not the sort of the code: the combination (python
  version, node version) of \<open>a\<close> is not higher than that of \<open>b\<close>. Versions compare as
  the library compares them, and an absent version equals an absent one only.
\<close>

definition version_below :: "version option \<Rightarrow> version option \<Rightarrow> bool" where
  "version_below u v \<longleftrightarrow>
     (case (u, v) of (Some a, Some b) \<Rightarrow> cmpkey a < cmpkey b | _ \<Rightarrow> False)"

definition version_equal :: "version option \<Rightarrow> version option \<Rightarrow> bool" where
  "version_equal u v \<longleftrightarrow>
     (case (u, v) of
        (Some a, Some b) \<Rightarrow> cmpkey a = cmpkey b
      | (None, None) \<Rightarrow> True
      | _ \<Rightarrow> False)"

definition not_above :: "dockerfile \<Rightarrow> dockerfile \<Rightarrow> bool" where
  "not_above a b \<longleftrightarrow>
     version_below (python_version a) (python_version b) \<or>
     (version_equal (python_version a) (python_version b) \<and>
      (version_below (node_version a) (node_version b) \<or>
       version_equal (node_version a) (node_version b)))"

text \<open>The nine offset pairs, in the order of \<^verbatim>\<open>itertools.product\<close>.\<close>

definition offset_pairs :: "(int \<times> int) list" where
  "offset_pairs = List.product options options"

text \<open>The keys of a group that stand for the file \<open>p\<close>, in the order of the group.\<close>

definition tags_in :: "string \<Rightarrow> (string \<times> string) list \<Rightarrow> string list" where
  "tags_in p items = map fst (filter (\<lambda>item. snd item = p) items)"

text \<open>A version that is present and has at least two components.\<close>

definition two_components :: "version option \<Rightarrow> bool" where
  "two_components v \<longleftrightarrow> (case v of None \<Rightarrow> False | Some x \<Rightarrow> 2 \<le> length (release x))"

section \<open>Example inputs\<close>

text \<open>The two artifacts of the spec's worked example.\<close>

definition artifact_A :: dockerfile where
  "artifact_A =
     \<lparr>dockerfile_path = ''dockerfiles/3.9-14.2/Dockerfile'',
      python_version = Some (Version [3, 9, 1]),
      node_version = Some (Version [14, 2, 0])\<rparr>"

definition artifact_B :: dockerfile where
  "artifact_B =
     \<lparr>dockerfile_path = ''dockerfiles/3.9-14.15/Dockerfile'',
      python_version = Some (Version [3, 9, 1]),
      node_version = Some (Version [14, 15, 0])\<rparr>"

text \<open>A third artifact, with a higher python version and a lower node version.\<close>

definition artifact_C :: dockerfile where
  "artifact_C =
     \<lparr>dockerfile_path = ''dockerfiles/3.10-12.0/Dockerfile'',
      python_version = Some (Version [3, 10, 0]),
      node_version = Some (Version [12, 0, 1])\<rparr>"

text \<open>An artifact whose node version has a single component.\<close>

definition one_component_df :: dockerfile where
  "one_component_df =
     \<lparr>dockerfile_path = ''dockerfiles/3.9-14/Dockerfile'',
      python_version = Some (Version [3, 9, 1]),
      node_version = Some (Version [14])\<rparr>"

text \<open>
  Two generated Dockerfiles, the first without a \<^verbatim>\<open>NODE_VERSION\<close> line, and the
  entry read from the first.
\<close>

definition null_node_fs :: filesystem where
  "null_node_fs =
     \<lparr>files = [''dockerfiles/a/Dockerfile'' \<mapsto>
                 ''FROM buildpack-deps:stretch'' @ [CHR 0x0A]
                 @ ''ENV PYTHON_VERSION 3.9.1'' @ [CHR 0x0A],
               ''dockerfiles/b/Dockerfile'' \<mapsto>
                 ''ENV PYTHON_VERSION 3.9.1'' @ [CHR 0x0A]
                 @ ''ENV NODE_VERSION 14.15.0'' @ [CHR 0x0A]],
      dirs = {''dockerfiles'', ''dockerfiles/a'', ''dockerfiles/b''},
      stdout = []\<rparr>"

definition null_node_df :: dockerfile where
  "null_node_df =
     \<lparr>dockerfile_path = ''dockerfiles/a/Dockerfile'',
      python_version = Some (Version [3, 9, 1]),
      node_version = None\<rparr>"

text \<open>A pipeline configuration whose \<^verbatim>\<open>jobs\<close> section has more than the included jobs.\<close>

definition travis_doc :: yaml where
  "travis_doc =
     YDict [(YStr ''language'', YStr ''python''),
            (YStr ''jobs'',
             YDict [(YStr ''include'', YList [YDict [(YStr ''name'', YStr ''old stage'')]]),
                    (YStr ''allow_failures'', YList [YDict [(YStr ''python'', YStr ''nightly'')]]),
                    (YStr ''fast_finish'', YBool True)]),
            (YStr ''services'', YList [YStr ''docker''])]"





text \<open>
  Two generated Dockerfiles with the same python version; the node version of the second
  has a single component.
\<close>

definition mixed_fs :: filesystem where
  "mixed_fs =
     \<lparr>files = [''dockerfiles/3.9-14.15/Dockerfile'' \<mapsto>
                 ''ENV PYTHON_VERSION 3.9.1'' @ [CHR 0x0A]
                 @ ''ENV NODE_VERSION 14.15.0'' @ [CHR 0x0A],
               ''dockerfiles/3.9-14/Dockerfile'' \<mapsto>
                 ''ENV PYTHON_VERSION 3.9.1'' @ [CHR 0x0A]
                 @ ''ENV NODE_VERSION 14'' @ [CHR 0x0A]],
      dirs = {''dockerfiles'', ''dockerfiles/3.9-14.15'', ''dockerfiles/3.9-14''},
      stdout = []\<rparr>"

section \<open>Truncation of a version\<close>

lemma split_on_not_Nil: "split_on c s \<noteq> []"
  by (induction s) (auto split: list.splits)

lemma join_Cons: "join sep (p # ps) = (if ps = [] then p else p @ sep @ join sep ps)"
  by (cases ps) simp_all

lemma join_split_on: "join [c] (split_on c s) = s"
proof (induction s)
  case Nil
  show ?case by simp
next
  case (Cons x xs)
  obtain p ps where "split_on c xs = p # ps"
    using split_on_not_Nil [of c xs] by (cases "split_on c xs") auto
  with Cons show ?case by (auto simp: join_Cons)
qed

text \<open>
  C3. For every version and offset: with offset 0 the truncation is the full string of
  the version, unchanged; with a negative offset \<open>n\<close> it is the first
  \<open>len(parts) + n\<close> dot-separated components joined by dots (none of them when that
  number is not positive).
\<close>

theorem strip_version_offsets:
  "strip_version version 0 = py_str version \<and>
   (n < 0 \<longrightarrow>
      strip_version version n =
        join ''.'' (take (nat (int (length (split_on CHR ''.'' (py_str version))) + n))
                         (split_on CHR ''.'' (py_str version))))"
  by (simp add: strip_version_def slice_to_def join_split_on)

theorem strip_version_offsets_witness:
  "strip_version (Some (Version [3, 9, 1])) 0 = ''3.9.1'' \<and>
   (-1 :: int) < 0 \<and>
   strip_version (Some (Version [3, 9, 1])) (-1) = ''3.9''"
proof -
  have s: "py_str (Some (Version [3, 9, 1])) = ''3.9.1''"
    by code_simp
  have t: "join ''.'' (take (nat (int (length (split_on CHR ''.'' ''3.9.1'')) + (-1)))
                         (split_on CHR ''.'' ''3.9.1'')) = ''3.9''"
    by code_simp
  from strip_version_offsets [of "Some (Version [3, 9, 1])" "-1"] s t
  show ?thesis by simp
qed

lemma one_component_tags:
  "build_tags [one_component_df] =
     Inr [(''dockerfiles/3.9-14/Dockerfile'',
           [''3-'', ''3-'', ''3-14'', ''3.9-'', ''3.9-'', ''3.9-14'',
            ''3.9.1-'', ''3.9.1-'', ''3.9.1-14''])]"
  by code_simp

text \<open>
  C10. When a version string has \<open>k\<close> dot-separated components and the offset \<open>n\<close> is
  negative with \<open>k + n \<le> 0\<close>, the truncation is the empty string. So two different
  offset pairs can give one artifact the same TagKey: the one-component version
  \<open>14\<close> truncates to the empty string under \<open>-1\<close> and under \<open>-2\<close>, and the tag
  \<open>3-\<close> with its empty side is in the output.
\<close>

theorem strip_version_empty:
  "(n < 0 \<and> int (length (split_on CHR ''.'' (py_str version))) + n \<le> 0 \<longrightarrow>
      strip_version version n = []) \<and>
   strip_version (Some (Version [14])) (-1) = [] \<and>
   strip_version (Some (Version [14])) (-2) = [] \<and>
   tag_key (-2) (-1) one_component_df = ''3-'' \<and>
   tag_key (-2) (-2) one_component_df = ''3-'' \<and>
   build_tags [one_component_df] =
     Inr [(''dockerfiles/3.9-14/Dockerfile'',
           [''3-'', ''3-'', ''3-14'', ''3.9-'', ''3.9-'', ''3.9-14'',
            ''3.9.1-'', ''3.9.1-'', ''3.9.1-14''])]"
proof -
  have general: "n < 0 \<and> int (length (split_on CHR ''.'' (py_str version))) + n \<le> 0 \<longrightarrow>
      strip_version version n = []"
    by (simp add: strip_version_def slice_to_def)
  have a: "strip_version (Some (Version [14])) (-1) = []"
    by code_simp
  have b: "strip_version (Some (Version [14])) (-2) = []"
    by code_simp
  have c: "tag_key (-2) (-1) one_component_df = ''3-''"
    by code_simp
  have d: "tag_key (-2) (-2) one_component_df = ''3-''"
    by code_simp
  from general a b c d one_component_tags show ?thesis
    by blast
qed

theorem strip_version_empty_witness:
  "(-2 :: int) < 0 \<and>
   int (length (split_on CHR ''.'' (py_str (Some (Version [14]))))) + (-2) \<le> 0 \<and>
   strip_version (Some (Version [14])) (-2) = []"
proof -
  have k: "int (length (split_on CHR ''.'' (py_str (Some (Version [14]))))) + (-2) \<le> 0"
    by code_simp
  from strip_version_empty [of "-2" "Some (Version [14])"] k show ?thesis
    by simp
qed

section \<open>The worked example\<close>

lemma example_sorted:
  "sort_reverse [artifact_A, artifact_B] = Inr [artifact_B, artifact_A]"
  "sort_reverse [artifact_B, artifact_A] = Inr [artifact_B, artifact_A]"
  by code_simp+

lemma example_full_keys:
  "group_by_version [artifact_B, artifact_A] 0 0 =
     [(''3.9.1-14.15.0'', ''dockerfiles/3.9-14.15/Dockerfile''),
      (''3.9.1-14.2.0'', ''dockerfiles/3.9-14.2/Dockerfile'')]"
  by code_simp

lemma example_major_keys:
  "group_by_version [artifact_B, artifact_A] (-2) (-2) =
     [(''3-14'', ''dockerfiles/3.9-14.15/Dockerfile'')]"
  by code_simp

lemma example_tags:
  "build_tags [artifact_A, artifact_B] =
     Inr [(''dockerfiles/3.9-14.15/Dockerfile'',
           [''3-14'', ''3-14.15'', ''3-14.15.0'', ''3.9-14'', ''3.9-14.15'',
            ''3.9-14.15.0'', ''3.9.1-14'', ''3.9.1-14.15'', ''3.9.1-14.15.0'']),
          (''dockerfiles/3.9-14.2/Dockerfile'',
           [''3-14.2'', ''3-14.2.0'', ''3.9-14.2'', ''3.9-14.2.0'',
            ''3.9.1-14.2'', ''3.9.1-14.2.0''])]"
  "build_tags [artifact_B, artifact_A] = build_tags [artifact_A, artifact_B]"
  by code_simp+

text \<open>
  C5. For A = (python 3.9.1, node 14.2.0) and B = (python 3.9.1, node 14.15.0), in
  either input order: B comes first in the descending order; under the offset pair
  (0, 0) the keys \<open>3.9.1-14.2.0\<close> and \<open>3.9.1-14.15.0\<close> map to A and to B; under
  (-2, -2) both truncate to the single key \<open>3-14\<close>, whose representative is B; and
  the tag list of A's file does not contain \<open>3-14\<close>.
\<close>

theorem example_A_B:
  "sort_reverse [artifact_A, artifact_B] = Inr [artifact_B, artifact_A] \<and>
   sort_reverse [artifact_B, artifact_A] = Inr [artifact_B, artifact_A] \<and>
   map_of (group_by_version [artifact_B, artifact_A] 0 0) ''3.9.1-14.2.0'' =
     Some (dockerfile_path artifact_A) \<and>
   map_of (group_by_version [artifact_B, artifact_A] 0 0) ''3.9.1-14.15.0'' =
     Some (dockerfile_path artifact_B) \<and>
   tag_key (-2) (-2) artifact_A = ''3-14'' \<and>
   tag_key (-2) (-2) artifact_B = ''3-14'' \<and>
   group_by_version [artifact_B, artifact_A] (-2) (-2) =
     [(''3-14'', dockerfile_path artifact_B)] \<and>
   (\<exists>m tags. build_tags [artifact_A, artifact_B] = Inr m \<and>
      build_tags [artifact_B, artifact_A] = Inr m \<and>
      map_of m (dockerfile_path artifact_A) = Some tags \<and>
      ''3-14'' \<notin> set tags)"
proof -
  have keys: "tag_key (-2) (-2) artifact_A = ''3-14''" "tag_key (-2) (-2) artifact_B = ''3-14''"
    by code_simp+
  have paths: "dockerfile_path artifact_A = ''dockerfiles/3.9-14.2/Dockerfile''"
    "dockerfile_path artifact_B = ''dockerfiles/3.9-14.15/Dockerfile''"
    by (simp_all add: artifact_A_def artifact_B_def)
  have tags: "\<exists>m tags. build_tags [artifact_A, artifact_B] = Inr m \<and>
      build_tags [artifact_B, artifact_A] = Inr m \<and>
      map_of m (dockerfile_path artifact_A) = Some tags \<and>
      ''3-14'' \<notin> set tags"
    unfolding example_tags paths by simp
  show ?thesis
    using example_sorted keys tags
    by (simp add: example_full_keys example_major_keys paths)
qed

section \<open>The order of the sort\<close>

lemma tuple_lt_error: "tuple_lt a b = Inl e \<Longrightarrow> e = TypeError"
  by (cases a; cases b; cases "fst a"; cases "fst b"; cases "snd a"; cases "snd b")
     (auto split: if_splits)

lemma tuple_lt_refl: "tuple_lt a a = Inr False"
  by (cases a; cases "fst a"; cases "snd a") auto

lemma tuple_lt_sym_error: "tuple_lt a b = Inl TypeError \<Longrightarrow> tuple_lt b a = Inl TypeError"
  by (cases a; cases b; cases "fst a"; cases "fst b"; cases "snd a"; cases "snd b")
     (auto split: if_splits)

lemma tuple_lt_asym: "tuple_lt a b = Inr True \<Longrightarrow> tuple_lt b a = Inr False"
  by (cases a; cases b; cases "fst a"; cases "fst b"; cases "snd a"; cases "snd b")
     (auto split: if_splits)

lemma tuple_lt_chain:
  "tuple_lt x y = Inr True \<Longrightarrow> tuple_lt z y = Inr False \<Longrightarrow> tuple_lt z x = Inr False"
  by (cases x; cases y; cases z; cases "fst x"; cases "fst y"; cases "fst z";
      cases "snd x"; cases "snd y"; cases "snd z")
     (auto split: if_splits)

lemma insort_df_mset: "insort_df x ys = Inr zs \<Longrightarrow> mset zs = add_mset x (mset ys)"
proof (induction ys arbitrary: zs)
  case Nil
  then show ?case by auto
next
  case (Cons y ys)
  then show ?case by (auto split: sum.splits bool.splits)
qed

lemma insort_df_sorted:
  "sorted_wrt key_le ys \<Longrightarrow> insort_df x ys = Inr zs \<Longrightarrow> sorted_wrt key_le zs"
proof (induction ys arbitrary: zs)
  case Nil
  then show ?case by auto
next
  case (Cons y ys)
  show ?case
  proof (cases "tuple_lt (version_key x) (version_key y)")
    case (Inl e)
    with Cons.prems show ?thesis by simp
  next
    case (Inr less)
    show ?thesis
    proof (cases less)
      case True
      with Inr Cons.prems have zs: "zs = x # y # ys" by simp
      have "key_le x y"
        unfolding key_le_def using Inr True by (intro tuple_lt_asym) simp
      moreover have "key_le x z" if "z \<in> set ys" for z
      proof -
        from that Cons.prems(1) have "tuple_lt (version_key z) (version_key y) = Inr False"
          by (auto simp: key_le_def)
        moreover have "tuple_lt (version_key x) (version_key y) = Inr True"
          using Inr True by simp
        ultimately show ?thesis
          unfolding key_le_def by (rule tuple_lt_chain [rotated])
      qed
      ultimately show ?thesis using Cons.prems(1) zs by auto
    next
      case False
      with Inr Cons.prems obtain zs' where
        ins: "insort_df x ys = Inr zs'" and zs: "zs = y # zs'"
        by (auto split: sum.splits)
      from Cons.IH [OF _ ins] Cons.prems(1) have "sorted_wrt key_le zs'" by simp
      moreover have "set zs' = insert x (set ys)"
        using insort_df_mset [OF ins] by (metis set_mset_add_mset_insert set_mset_mset)
      moreover have "key_le y x"
        using Inr False by (simp add: key_le_def)
      ultimately show ?thesis using Cons.prems(1) zs by auto
    qed
  qed
qed

lemma sort_into_sorted:
  "sorted_wrt key_le acc \<Longrightarrow> sort_into acc xs = Inr zs \<Longrightarrow>
     sorted_wrt key_le zs \<and> mset zs = mset acc + mset xs"
proof (induction xs arbitrary: acc)
  case Nil
  then show ?case by simp
next
  case (Cons x xs)
  from Cons.prems(2) obtain acc' where
    ins: "insort_df x acc = Inr acc'" and rest: "sort_into acc' xs = Inr zs"
    by (auto split: sum.splits)
  from insort_df_sorted [OF Cons.prems(1) ins] have "sorted_wrt key_le acc'" .
  from Cons.IH [OF this rest] insort_df_mset [OF ins] show ?case by simp
qed

lemma sort_reverse_descending:
  assumes "sort_reverse dfs = Inr ds"
  shows "sorted_wrt (\<lambda>a b. key_le b a) ds" and "mset ds = mset dfs"
proof -
  from assms obtain asc where asc: "sort_into [] dfs = Inr asc" and ds: "ds = rev asc"
    by (auto simp: sort_reverse_def sort_dockerfiles_def split: sum.splits)
  from sort_into_sorted [OF _ asc] have "sorted_wrt key_le asc" "mset asc = mset dfs"
    by simp_all
  then show "sorted_wrt (\<lambda>a b. key_le b a) ds" and "mset ds = mset dfs"
    by (simp_all add: ds sorted_wrt_rev)
qed

lemma insort_df_comparable:
  "sorted_wrt key_le ys \<Longrightarrow> insort_df x ys = Inr zs \<Longrightarrow> y \<in> set ys \<Longrightarrow> comparable x y"
proof (induction ys arbitrary: zs)
  case Nil
  then show ?case by simp
next
  case (Cons y' ys)
  show ?case
  proof (cases "tuple_lt (version_key x) (version_key y')")
    case (Inl e)
    with Cons.prems show ?thesis by simp
  next
    case (Inr less)
    show ?thesis
    proof (cases less)
      case True
      show ?thesis
      proof (cases "y = y'")
        case True
        with Inr show ?thesis by (simp add: comparable_def)
      next
        case False
        with Cons.prems have "tuple_lt (version_key y) (version_key y') = Inr False"
          by (auto simp: key_le_def)
        moreover have "tuple_lt (version_key x) (version_key y') = Inr True"
          using Inr True by simp
        ultimately have "tuple_lt (version_key y) (version_key x) = Inr False"
          by (rule tuple_lt_chain [rotated])
        then show ?thesis
          unfolding comparable_def using tuple_lt_sym_error by fastforce
      qed
    next
      case False
      with Inr Cons.prems obtain zs' where ins: "insort_df x ys = Inr zs'"
        by (auto split: sum.splits)
      show ?thesis
      proof (cases "y = y'")
        case True
        with Inr show ?thesis by (simp add: comparable_def)
      next
        case False
        with Cons.prems have "y \<in> set ys" by simp
        from Cons.IH [OF _ ins this] Cons.prems(1) show ?thesis by simp
      qed
    qed
  qed
qed

lemma comparable_sym: "comparable a b \<Longrightarrow> comparable b a"
  unfolding comparable_def using tuple_lt_sym_error by blast

lemma comparable_refl: "comparable a a"
  by (simp add: comparable_def tuple_lt_refl)

lemma insort_df_fails:
  "insort_df x ys = Inl e \<Longrightarrow> \<exists>y \<in> set ys. \<not> comparable x y"
proof (induction ys)
  case Nil
  then show ?case by simp
next
  case (Cons y ys)
  then show ?case
    by (auto simp: comparable_def split: sum.splits bool.splits dest: tuple_lt_error)
qed

lemma sort_into_comparable:
  "sorted_wrt key_le acc \<Longrightarrow> (\<forall>a \<in> set acc. \<forall>b \<in> set acc. comparable a b) \<Longrightarrow>
   sort_into acc xs = Inr zs \<Longrightarrow> a \<in> set acc \<union> set xs \<Longrightarrow> b \<in> set acc \<union> set xs \<Longrightarrow>
   comparable a b"
proof (induction xs arbitrary: acc)
  case Nil
  then show ?case by simp
next
  case (Cons x xs)
  from Cons.prems(3) obtain acc' where
    ins: "insort_df x acc = Inr acc'" and rest: "sort_into acc' xs = Inr zs"
    by (auto split: sum.splits)
  have sorted': "sorted_wrt key_le acc'"
    using insort_df_sorted [OF Cons.prems(1) ins] .
  have set': "set acc' = insert x (set acc)"
    using insort_df_mset [OF ins] by (metis set_mset_add_mset_insert set_mset_mset)
  have xc: "comparable x y" if "y \<in> set acc" for y
    using insort_df_comparable [OF Cons.prems(1) ins that] .
  have all': "\<forall>a \<in> set acc'. \<forall>b \<in> set acc'. comparable a b"
    using Cons.prems(2) xc comparable_sym comparable_refl unfolding set' by blast
  have "a \<in> set acc' \<union> set xs" "b \<in> set acc' \<union> set xs"
    using Cons.prems(4,5) set' by auto
  from Cons.IH [OF sorted' all' rest this] show ?case .
qed

lemma sort_into_fails:
  "sort_into acc xs = Inl e \<Longrightarrow>
     e = TypeError \<and> (\<exists>a \<in> set acc \<union> set xs. \<exists>b \<in> set acc \<union> set xs. \<not> comparable a b)"
proof (induction xs arbitrary: acc)
  case Nil
  then show ?case by simp
next
  case (Cons x xs)
  show ?case
  proof (cases "insort_df x acc")
    case (Inl e')
    with Cons.prems have "e' = e" by simp
    from insort_df_fails [OF Inl] obtain y where "y \<in> set acc" "\<not> comparable x y" by blast
    moreover have "e = TypeError"
      using Inl \<open>e' = e\<close>
    proof (induction acc)
      case Nil
      then show ?case by simp
    next
      case (Cons a acc)
      then show ?case by (auto split: sum.splits bool.splits dest: tuple_lt_error)
    qed
    ultimately show ?thesis by auto
  next
    case (Inr acc')
    with Cons.prems have rest: "sort_into acc' xs = Inl e" by simp
    have "set acc' = insert x (set acc)"
      using insort_df_mset [OF Inr] by (metis set_mset_add_mset_insert set_mset_mset)
    with Cons.IH [OF rest] show ?thesis by auto
  qed
qed

lemma sort_reverse_fails_iff:
  "sort_reverse dfs = Inl TypeError \<longleftrightarrow> (\<exists>a \<in> set dfs. \<exists>b \<in> set dfs. \<not> comparable a b)"
proof
  assume "sort_reverse dfs = Inl TypeError"
  then have "sort_into [] dfs = Inl TypeError"
    by (auto simp: sort_reverse_def sort_dockerfiles_def split: sum.splits)
  from sort_into_fails [OF this] show "\<exists>a \<in> set dfs. \<exists>b \<in> set dfs. \<not> comparable a b"
    by simp
next
  assume bad: "\<exists>a \<in> set dfs. \<exists>b \<in> set dfs. \<not> comparable a b"
  show "sort_reverse dfs = Inl TypeError"
  proof (cases "sort_into [] dfs")
    case (Inl e)
    with sort_into_fails [OF Inl] show ?thesis
      by (simp add: sort_reverse_def sort_dockerfiles_def)
  next
    case (Inr zs)
    have "comparable a b" if "a \<in> set dfs" "b \<in> set dfs" for a b
      using sort_into_comparable [OF _ _ Inr, of a b] that by simp
    with bad show ?thesis by blast
  qed
qed

section \<open>Groups and collected tags\<close>

lemma map_of_snoc:
  "map_of (al @ [(k', v')]) k =
     (case map_of al k of Some v \<Rightarrow> Some v | None \<Rightarrow> if k = k' then Some v' else None)"
  by (simp add: map_add_def split: option.splits)

lemma group_step_foldl:
  "distinct (map fst acc) \<Longrightarrow>
     distinct (map fst (foldl (group_step po no) acc ds)) \<and>
     map_of (foldl (group_step po no) acc ds) k =
       (case map_of acc k of
          Some p \<Rightarrow> Some p
        | None \<Rightarrow> map_option dockerfile_path (find (\<lambda>d. tag_key po no d = k) ds))"
proof (induction ds arbitrary: acc)
  case Nil
  then show ?case by (simp split: option.splits)
next
  case (Cons d ds)
  let ?acc' = "group_step po no acc d"
  have d': "distinct (map fst ?acc')"
    using Cons.prems by (simp add: group_step_def Let_def)
  have m': "map_of ?acc' k =
      (case map_of acc k of
         Some p \<Rightarrow> Some p
       | None \<Rightarrow> if tag_key po no d = k then Some (dockerfile_path d) else None)"
  proof (cases "tag_key po no d \<in> set (map fst acc)")
    case True
    then have "?acc' = acc" by (simp add: group_step_def Let_def)
    moreover have "map_of acc (tag_key po no d) \<noteq> None"
      using True by (simp add: map_of_eq_None_iff)
    ultimately show ?thesis by (auto split: option.splits)
  next
    case False
    then have "?acc' = acc @ [(tag_key po no d, dockerfile_path d)]"
      by (simp add: group_step_def Let_def)
    then show ?thesis by (simp only: map_of_snoc) (auto split: option.splits)
  qed
  have ih: "map_of (foldl (group_step po no) ?acc' ds) k =
      (case map_of ?acc' k of
         Some p \<Rightarrow> Some p
       | None \<Rightarrow> map_option dockerfile_path (find (\<lambda>d. tag_key po no d = k) ds))"
    using Cons.IH [OF d'] by (rule conjunct2)
  have "map_of (foldl (group_step po no) ?acc' ds) k =
      (case map_of acc k of
         Some p \<Rightarrow> Some p
       | None \<Rightarrow> map_option dockerfile_path (find (\<lambda>d. tag_key po no d = k) (d # ds)))"
  proof (cases "map_of acc k")
    case None
    then show ?thesis by (simp add: ih m')
  next
    case (Some p)
    then show ?thesis by (simp add: ih m')
  qed
  moreover have "distinct (map fst (foldl (group_step po no) ?acc' ds))"
    using Cons.IH [OF d'] by (rule conjunct1)
  ultimately show ?case by simp
qed

lemma group_by_version_distinct: "distinct (map fst (group_by_version ds po no))"
  using group_step_foldl [of "[]" po no ds] by (simp add: group_by_version_def)

lemma group_by_version_find:
  "map_of (group_by_version ds po no) k =
     map_option dockerfile_path (find (\<lambda>d. tag_key po no d = k) ds)"
  using group_step_foldl [of "[]" po no ds k] by (simp add: group_by_version_def)

lemma group_by_version_mem:
  "(k, p) \<in> set (group_by_version ds po no) \<longleftrightarrow>
     (\<exists>d. find (\<lambda>d. tag_key po no d = k) ds = Some d \<and> dockerfile_path d = p)"
proof -
  have "(k, p) \<in> set (group_by_version ds po no) \<longleftrightarrow>
      map_of (group_by_version ds po no) k = Some p"
    using group_by_version_distinct [of ds po no] by simp
  then show ?thesis
    unfolding group_by_version_find by auto
qed

lemma add_tag_foldl:
  "distinct (map fst acc) \<Longrightarrow>
     distinct (map fst (foldl add_tag acc items)) \<and>
     set (map fst (foldl add_tag acc items)) = set (map fst acc) \<union> snd ` set items \<and>
     map_of (foldl add_tag acc items) p =
       (case map_of acc p of
          Some ts \<Rightarrow> Some (ts @ tags_in p items)
        | None \<Rightarrow> if tags_in p items = [] then None else Some (tags_in p items))"
proof (induction items arbitrary: acc)
  case Nil
  then show ?case by (simp add: tags_in_def split: option.splits)
next
  case (Cons item items)
  obtain tag df where item: "item = (tag, df)" by (cases item)
  let ?acc' = "add_tag acc item"
  have d': "distinct (map fst ?acc')"
    using Cons.prems by (simp add: add_tag_def item distinct_map_entry)
  have s': "set (map fst ?acc') = insert df (set (map fst acc))"
  proof (cases "df \<in> set (map fst acc)")
    case True
    then have "set (map fst ?acc') = set (map fst acc)"
      using dom_map_entry [of df "\<lambda>tags. tags @ [tag]" acc]
      by (simp add: add_tag_def item)
    with True show ?thesis by auto
  next
    case False
    then show ?thesis by (simp add: add_tag_def item)
  qed
  have m': "map_of ?acc' p =
      (if p = df then (case map_of acc p of Some ts \<Rightarrow> Some (ts @ [tag]) | None \<Rightarrow> Some [tag])
       else map_of acc p)"
  proof (cases "df \<in> set (map fst acc)")
    case True
    then have "?acc' = AList.map_entry df (\<lambda>tags. tags @ [tag]) acc"
      by (simp add: add_tag_def item)
    moreover have "map_of acc df \<noteq> None"
      using True by (simp add: map_of_eq_None_iff)
    ultimately show ?thesis by (auto simp: map_of_map_entry split: option.splits)
  next
    case False
    then have "?acc' = acc @ [(df, [tag])]"
      by (simp add: add_tag_def item)
    moreover have "map_of acc df = None"
      using False by (simp add: map_of_eq_None_iff)
    ultimately show ?thesis by (simp only: map_of_snoc) (auto split: option.splits)
  qed
  have t: "tags_in p (item # items) = (if p = df then tag # tags_in p items else tags_in p items)"
    by (simp add: tags_in_def item)
  have ih: "distinct (map fst (foldl add_tag ?acc' items))"
    "set (map fst (foldl add_tag ?acc' items)) = set (map fst ?acc') \<union> snd ` set items"
    "map_of (foldl add_tag ?acc' items) p =
       (case map_of ?acc' p of
          Some ts \<Rightarrow> Some (ts @ tags_in p items)
        | None \<Rightarrow> if tags_in p items = [] then None else Some (tags_in p items))"
    using Cons.IH [OF d'] by blast+
  have "map_of (foldl add_tag ?acc' items) p =
       (case map_of acc p of
          Some ts \<Rightarrow> Some (ts @ tags_in p (item # items))
        | None \<Rightarrow> if tags_in p (item # items) = [] then None
                  else Some (tags_in p (item # items)))"
  proof (cases "p = df")
    case True
    show ?thesis
    proof (cases "map_of acc df")
      case None
      then show ?thesis unfolding ih(3) m' t using True by simp
    next
      case (Some ts)
      then show ?thesis unfolding ih(3) m' t using True by simp
    qed
  next
    case False
    then show ?thesis unfolding ih(3) m' t by simp
  qed
  moreover have "set (map fst (foldl add_tag ?acc' items)) =
      set (map fst acc) \<union> snd ` set (item # items)"
    unfolding ih(2) s' by (simp add: item)
  ultimately show ?case using ih(1) by simp
qed

lemma collect_foldl:
  "distinct (map fst acc) \<Longrightarrow>
     distinct (map fst (foldl (\<lambda>a t. foldl add_tag a (g t)) acc ts)) \<and>
     set (map fst (foldl (\<lambda>a t. foldl add_tag a (g t)) acc ts)) =
       set (map fst acc) \<union> (\<Union>t \<in> set ts. snd ` set (g t)) \<and>
     map_of (foldl (\<lambda>a t. foldl add_tag a (g t)) acc ts) p =
       (case map_of acc p of
          Some l \<Rightarrow> Some (l @ concat (map (\<lambda>t. tags_in p (g t)) ts))
        | None \<Rightarrow> if concat (map (\<lambda>t. tags_in p (g t)) ts) = [] then None
                  else Some (concat (map (\<lambda>t. tags_in p (g t)) ts)))"
proof (induction ts arbitrary: acc)
  case Nil
  then show ?case by (simp split: option.splits)
next
  case (Cons t ts)
  let ?acc' = "foldl add_tag acc (g t)"
  have step: "distinct (map fst ?acc')"
    "set (map fst ?acc') = set (map fst acc) \<union> snd ` set (g t)"
    "map_of ?acc' p =
       (case map_of acc p of
          Some l \<Rightarrow> Some (l @ tags_in p (g t))
        | None \<Rightarrow> if tags_in p (g t) = [] then None else Some (tags_in p (g t)))"
    using add_tag_foldl [OF Cons.prems, of "g t" p] by blast+
  have ih: "distinct (map fst (foldl (\<lambda>a t. foldl add_tag a (g t)) ?acc' ts))"
    "set (map fst (foldl (\<lambda>a t. foldl add_tag a (g t)) ?acc' ts)) =
       set (map fst ?acc') \<union> (\<Union>t \<in> set ts. snd ` set (g t))"
    "map_of (foldl (\<lambda>a t. foldl add_tag a (g t)) ?acc' ts) p =
       (case map_of ?acc' p of
          Some l \<Rightarrow> Some (l @ concat (map (\<lambda>t. tags_in p (g t)) ts))
        | None \<Rightarrow> if concat (map (\<lambda>t. tags_in p (g t)) ts) = [] then None
                  else Some (concat (map (\<lambda>t. tags_in p (g t)) ts)))"
    using Cons.IH [OF step(1)] by blast+
  have "map_of (foldl (\<lambda>a t. foldl add_tag a (g t)) ?acc' ts) p =
       (case map_of acc p of
          Some l \<Rightarrow> Some (l @ concat (map (\<lambda>t. tags_in p (g t)) (t # ts)))
        | None \<Rightarrow> if concat (map (\<lambda>t. tags_in p (g t)) (t # ts)) = [] then None
                  else Some (concat (map (\<lambda>t. tags_in p (g t)) (t # ts))))"
  proof (cases "map_of acc p")
    case None
    then show ?thesis unfolding ih(3) step(3) by simp
  next
    case (Some l)
    then show ?thesis unfolding ih(3) step(3) by simp
  qed
  moreover have "set (map fst (foldl (\<lambda>a t. foldl add_tag a (g t)) ?acc' ts)) =
       set (map fst acc) \<union> (\<Union>t \<in> set (t # ts). snd ` set (g t))"
    unfolding ih(2) step(2) by auto
  ultimately show ?case using ih(1) by simp
qed

lemma collect_tags_keys:
  "set (map fst (collect_tags ds)) =
     (\<Union>t \<in> set offset_pairs. snd ` set (group_by_version ds (fst t) (snd t)))"
  using collect_foldl [of "[]" "\<lambda>t. group_by_version ds (fst t) (snd t)" offset_pairs]
  by (simp add: collect_tags_def offset_pairs_def)

lemma collect_tags_distinct: "distinct (map fst (collect_tags ds))"
  using collect_foldl [of "[]" "\<lambda>t. group_by_version ds (fst t) (snd t)" offset_pairs]
  by (simp add: collect_tags_def offset_pairs_def)

lemma collect_tags_map_of:
  "map_of (collect_tags ds) p =
     (if concat (map (\<lambda>t. tags_in p (group_by_version ds (fst t) (snd t))) offset_pairs) = []
      then None
      else Some (concat (map (\<lambda>t. tags_in p (group_by_version ds (fst t) (snd t))) offset_pairs)))"
  using collect_foldl [of "[]" "\<lambda>t. group_by_version ds (fst t) (snd t)" offset_pairs p]
  by (simp add: collect_tags_def offset_pairs_def)

lemma group_first_seen:
  "(\<exists>k. (k, p) \<in> set (group_by_version ds po no)) \<longleftrightarrow>
     (\<exists>i < length ds. dockerfile_path (ds ! i) = p \<and>
        (\<forall>j < i. tag_key po no (ds ! j) \<noteq> tag_key po no (ds ! i)))"
proof
  assume "\<exists>k. (k, p) \<in> set (group_by_version ds po no)"
  then obtain k d where "find (\<lambda>d. tag_key po no d = k) ds = Some d" "dockerfile_path d = p"
    unfolding group_by_version_mem by blast
  then show "\<exists>i < length ds. dockerfile_path (ds ! i) = p \<and>
        (\<forall>j < i. tag_key po no (ds ! j) \<noteq> tag_key po no (ds ! i))"
    unfolding find_Some_iff by auto
next
  assume "\<exists>i < length ds. dockerfile_path (ds ! i) = p \<and>
        (\<forall>j < i. tag_key po no (ds ! j) \<noteq> tag_key po no (ds ! i))"
  then obtain i where i: "i < length ds" "dockerfile_path (ds ! i) = p"
    "\<forall>j < i. tag_key po no (ds ! j) \<noteq> tag_key po no (ds ! i)"
    by blast
  then have "find (\<lambda>d. tag_key po no d = tag_key po no (ds ! i)) ds = Some (ds ! i)"
    unfolding find_Some_iff by blast
  with i(2) show "\<exists>k. (k, p) \<in> set (group_by_version ds po no)"
    unfolding group_by_version_mem by blast
qed

lemma group_highest:
  assumes desc: "sorted_wrt (\<lambda>a b. key_le b a) ds"
    and mem: "(k, p) \<in> set (group_by_version ds po no)"
  shows "\<exists>d \<in> set ds. dockerfile_path d = p \<and> tag_key po no d = k \<and>
           (\<forall>e \<in> set ds. tag_key po no e = k \<longrightarrow> key_le e d)"
proof -
  from mem obtain d where "find (\<lambda>d. tag_key po no d = k) ds = Some d" and p: "dockerfile_path d = p"
    unfolding group_by_version_mem by blast
  then obtain i where i: "i < length ds" "tag_key po no (ds ! i) = k" "d = ds ! i"
    "\<forall>j < i. tag_key po no (ds ! j) \<noteq> k"
    unfolding find_Some_iff by blast
  have "key_le e d" if e: "e \<in> set ds" "tag_key po no e = k" for e
  proof -
    from e(1) obtain j where j: "j < length ds" "e = ds ! j"
      by (auto simp: in_set_conv_nth)
    with e(2) i(4) have "\<not> j < i" by blast
    then consider "j = i" | "i < j" by linarith
    then show ?thesis
    proof cases
      case 1
      with j i show ?thesis by (simp add: key_le_def tuple_lt_refl)
    next
      case 2
      with desc j i show ?thesis by (simp add: sorted_wrt_iff_nth_less)
    qed
  qed
  with i p show ?thesis by auto
qed

lemma key_le_not_above: "key_le a b \<Longrightarrow> not_above a b"
  by (cases "python_version a"; cases "python_version b"; cases "node_version a";
      cases "node_version b")
     (auto simp: key_le_def version_key_def not_above_def version_below_def version_equal_def
        split: if_splits)

lemma descending_not_above:
  "sorted_wrt (\<lambda>a b. key_le b a) ds \<Longrightarrow> sorted_wrt (\<lambda>a b. not_above b a) ds"
  by (rule sorted_wrt_mono_rel) (auto intro: key_le_not_above)

lemma scrambled_tags:
  "build_tags [artifact_B, artifact_C, artifact_A] =
     Inr [(''dockerfiles/3.10-12.0/Dockerfile'',
           [''3-12'', ''3-12.0'', ''3-12.0.1'', ''3.10-12'', ''3.10-12.0'', ''3.10-12.0.1'',
            ''3.10.0-12'', ''3.10.0-12.0'', ''3.10.0-12.0.1'']),
          (''dockerfiles/3.9-14.15/Dockerfile'',
           [''3-14'', ''3-14.15'', ''3-14.15.0'', ''3.9-14'', ''3.9-14.15'',
            ''3.9-14.15.0'', ''3.9.1-14'', ''3.9.1-14.15'', ''3.9.1-14.15.0'']),
          (''dockerfiles/3.9-14.2/Dockerfile'',
           [''3-14.2'', ''3-14.2.0'', ''3.9-14.2'', ''3.9-14.2.0'',
            ''3.9.1-14.2'', ''3.9.1-14.2.0''])]"
  "sort_reverse [artifact_B, artifact_C, artifact_A] = Inr [artifact_C, artifact_B, artifact_A]"
  "(''3-14'', ''dockerfiles/3.9-14.15/Dockerfile'') \<in>
     set (group_by_version [artifact_C, artifact_B, artifact_A] (-2) (-2))"
  "(-2, -2) \<in> set offset_pairs"
  by code_simp+

text \<open>
  C1. Whenever the builder returns a mapping, the list it works on is the input in
  descending order of (python version, node version): an entry later in the list never
  has a higher combination than an earlier one. A path is a key of the mapping exactly
  when, for one of the nine offset pairs, an entry with that path is the first one in
  the descending list to produce its TagKey. And within each offset pair the
  representative of a TagKey is an entry than which no entry truncating to that key is
  higher (entries with equal combinations tie).
\<close>

theorem builder_first_seen:
  assumes "build_tags dfs = Inr m"
  shows "\<exists>ds. sort_reverse dfs = Inr ds \<and> mset ds = mset dfs \<and>
     (\<forall>i j. i < j \<and> j < length ds \<longrightarrow> not_above (ds ! j) (ds ! i)) \<and>
     (\<forall>p. p \<in> set (map fst m) \<longleftrightarrow>
        (\<exists>t \<in> set offset_pairs. \<exists>i < length ds. dockerfile_path (ds ! i) = p \<and>
           (\<forall>j < i. tag_key (fst t) (snd t) (ds ! j) \<noteq> tag_key (fst t) (snd t) (ds ! i)))) \<and>
     (\<forall>t \<in> set offset_pairs. \<forall>k p.
        (k, p) \<in> set (group_by_version ds (fst t) (snd t)) \<longrightarrow>
        (\<exists>d \<in> set ds. dockerfile_path d = p \<and> tag_key (fst t) (snd t) d = k \<and>
           (\<forall>e \<in> set ds. tag_key (fst t) (snd t) e = k \<longrightarrow> not_above e d)))"
proof -
  from assms obtain ds where sr: "sort_reverse dfs = Inr ds" and m: "m = collect_tags ds"
    by (auto simp: build_tags_def split: sum.splits)
  note desc = sort_reverse_descending [OF sr]
  have order: "\<forall>i j. i < j \<and> j < length ds \<longrightarrow> not_above (ds ! j) (ds ! i)"
    using descending_not_above [OF desc(1)] by (simp add: sorted_wrt_iff_nth_less)
  have keys: "p \<in> set (map fst m) \<longleftrightarrow>
        (\<exists>t \<in> set offset_pairs. \<exists>i < length ds. dockerfile_path (ds ! i) = p \<and>
           (\<forall>j < i. tag_key (fst t) (snd t) (ds ! j) \<noteq> tag_key (fst t) (snd t) (ds ! i)))" for p
  proof -
    have "p \<in> set (map fst m) \<longleftrightarrow>
        (\<exists>t \<in> set offset_pairs. \<exists>k. (k, p) \<in> set (group_by_version ds (fst t) (snd t)))"
      unfolding m collect_tags_keys by force
    then show ?thesis unfolding group_first_seen .
  qed
  have top: "\<forall>t \<in> set offset_pairs. \<forall>k p.
        (k, p) \<in> set (group_by_version ds (fst t) (snd t)) \<longrightarrow>
        (\<exists>d \<in> set ds. dockerfile_path d = p \<and> tag_key (fst t) (snd t) d = k \<and>
           (\<forall>e \<in> set ds. tag_key (fst t) (snd t) e = k \<longrightarrow> not_above e d))"
    using group_highest [OF desc(1)] key_le_not_above by blast
  from sr desc(2) order keys top show ?thesis by blast
qed

theorem builder_first_seen_witness:
  "build_tags [artifact_B, artifact_C, artifact_A] =
     Inr [(''dockerfiles/3.10-12.0/Dockerfile'',
           [''3-12'', ''3-12.0'', ''3-12.0.1'', ''3.10-12'', ''3.10-12.0'', ''3.10-12.0.1'',
            ''3.10.0-12'', ''3.10.0-12.0'', ''3.10.0-12.0.1'']),
          (''dockerfiles/3.9-14.15/Dockerfile'',
           [''3-14'', ''3-14.15'', ''3-14.15.0'', ''3.9-14'', ''3.9-14.15'',
            ''3.9-14.15.0'', ''3.9.1-14'', ''3.9.1-14.15'', ''3.9.1-14.15.0'']),
          (''dockerfiles/3.9-14.2/Dockerfile'',
           [''3-14.2'', ''3-14.2.0'', ''3.9-14.2'', ''3.9-14.2.0'',
            ''3.9.1-14.2'', ''3.9.1-14.2.0''])] \<and>
   sort_reverse [artifact_B, artifact_C, artifact_A] = Inr [artifact_C, artifact_B, artifact_A] \<and>
   not_above artifact_B artifact_C \<and>
   not_above artifact_A artifact_B \<and>
   \<not> not_above artifact_C artifact_B \<and>
   \<not> not_above artifact_B artifact_A \<and>
   (\<exists>d \<in> set [artifact_C, artifact_B, artifact_A].
      dockerfile_path d = ''dockerfiles/3.9-14.15/Dockerfile'' \<and>
      tag_key (-2) (-2) d = ''3-14'' \<and>
      not_above artifact_A d \<and> not_above artifact_B d)"
proof -
  let ?ds = "[artifact_C, artifact_B, artifact_A]"
  from builder_first_seen [OF scrambled_tags(1)] scrambled_tags(2)
  have order: "\<forall>i j. i < j \<and> j < length ?ds \<longrightarrow> not_above (?ds ! j) (?ds ! i)"
    and top: "\<forall>t \<in> set offset_pairs. \<forall>k p.
        (k, p) \<in> set (group_by_version ?ds (fst t) (snd t)) \<longrightarrow>
        (\<exists>d \<in> set ?ds. dockerfile_path d = p \<and> tag_key (fst t) (snd t) d = k \<and>
           (\<forall>e \<in> set ?ds. tag_key (fst t) (snd t) e = k \<longrightarrow> not_above e d))"
    by auto
  have "(0 :: nat) < 1 \<and> 1 < length ?ds" "(1 :: nat) < 2 \<and> 2 < length ?ds"
    by simp_all
  with order have "not_above (?ds ! 1) (?ds ! 0)" "not_above (?ds ! 2) (?ds ! 1)"
    by blast+
  then have o: "not_above artifact_B artifact_C" "not_above artifact_A artifact_B"
    by simp_all
  have strict: "\<not> not_above artifact_C artifact_B" "\<not> not_above artifact_B artifact_A"
    by code_simp+
  have keys: "tag_key (-2) (-2) artifact_A = ''3-14''" "tag_key (-2) (-2) artifact_B = ''3-14''"
    by code_simp+
  from top scrambled_tags(3,4)
  have "\<exists>d \<in> set ?ds. dockerfile_path d = ''dockerfiles/3.9-14.15/Dockerfile'' \<and>
      tag_key (fst (-2 :: int, -2 :: int)) (snd (-2 :: int, -2 :: int)) d = ''3-14'' \<and>
      (\<forall>e \<in> set ?ds.
         tag_key (fst (-2 :: int, -2 :: int)) (snd (-2 :: int, -2 :: int)) e = ''3-14'' \<longrightarrow>
         not_above e d)"
    by (elim ballE [where x = "(-2, -2)"]) (auto simp del: set_simps)
  then have rep: "\<exists>d \<in> set ?ds. dockerfile_path d = ''dockerfiles/3.9-14.15/Dockerfile'' \<and>
      tag_key (-2) (-2) d = ''3-14'' \<and> not_above artifact_A d \<and> not_above artifact_B d"
    using keys by auto
  from scrambled_tags(1,2) o strict rep show ?thesis by blast
qed

section \<open>Tag lists\<close>

lemma digit_char_digit: "d < 10 \<Longrightarrow> digit_char d \<in> set ''0123456789''"
  unfolding digit_char_def by (rule nth_mem) simp

lemma str_nat_digits: "set (str_nat n) \<subseteq> set ''0123456789''"
proof (induction n rule: str_nat.induct)
  case (1 n)
  show ?case
  proof (cases "n < 10")
    case True
    with digit_char_digit [of n] show ?thesis
      by (subst str_nat.simps) simp
  next
    case False
    have "n mod 10 < 10" by simp
    from digit_char_digit [OF this] "1.IH" [OF False] False show ?thesis
      by (subst str_nat.simps) simp
  qed
qed

lemma str_nat_not_Nil: "str_nat n \<noteq> []"
  by (subst str_nat.simps) simp

lemma str_nat_no_sep: "CHR ''.'' \<notin> set (str_nat n)" "CHR ''-'' \<notin> set (str_nat n)"
  using str_nat_digits [of n] by auto

lemma split_on_no_sep: "c \<notin> set p \<Longrightarrow> split_on c p = [p]"
  by (induction p) auto

lemma split_on_append: "c \<notin> set p \<Longrightarrow> split_on c (p @ c # rest) = p # split_on c rest"
  by (induction p) auto

lemma split_on_join:
  "ps \<noteq> [] \<Longrightarrow> \<forall>p \<in> set ps. c \<notin> set p \<Longrightarrow> split_on c (join [c] ps) = ps"
proof (induction ps)
  case Nil
  then show ?case by simp
next
  case (Cons p ps)
  show ?case
  proof (cases ps)
    case Nil
    with Cons.prems show ?thesis by (simp add: split_on_no_sep)
  next
    case (Cons q qs)
    with Cons.prems Cons.IH show ?thesis
      by (simp add: split_on_append)
  qed
qed

lemma join_snoc: "join sep (ps @ [p]) = (if ps = [] then p else join sep ps @ sep @ p)"
  by (induction sep ps rule: join.induct) auto

lemma join_take_longer:
  "\<forall>p \<in> set ps. p \<noteq> [] \<Longrightarrow> j < length ps \<Longrightarrow>
     length (join sep (take j ps)) < length (join sep (take (Suc j) ps))"
proof -
  assume ne: "\<forall>p \<in> set ps. p \<noteq> []" and j: "j < length ps"
  then have "ps ! j \<noteq> []" by simp
  then have "0 < length (ps ! j)" by simp
  moreover have "join sep (take (Suc j) ps) =
      (if take j ps = [] then ps ! j else join sep (take j ps) @ sep @ ps ! j)"
    using j by (simp only: take_Suc_conv_app_nth join_snoc)
  ultimately show ?thesis
  proof (cases "take j ps = []")
    case True
    moreover from True have "join sep (take j ps) = []" by (simp only: join.simps)
    ultimately show ?thesis
      using \<open>0 < length (ps ! j)\<close>
        \<open>join sep (take (Suc j) ps) =
          (if take j ps = [] then ps ! j else join sep (take j ps) @ sep @ ps ! j)\<close>
      by simp
  next
    case False
    then show ?thesis
      using \<open>0 < length (ps ! j)\<close>
        \<open>join sep (take (Suc j) ps) =
          (if take j ps = [] then ps ! j else join sep (take j ps) @ sep @ ps ! j)\<close>
      by simp
  qed
qed

lemma join_take_mono:
  "\<forall>p \<in> set ps. p \<noteq> [] \<Longrightarrow> i < j \<Longrightarrow> j \<le> length ps \<Longrightarrow>
     length (join sep (take i ps)) < length (join sep (take j ps))"
proof (induction j)
  case 0
  then show ?case by simp
next
  case (Suc j)
  from Suc.prems have step: "length (join sep (take j ps)) < length (join sep (take (Suc j) ps))"
    by (intro join_take_longer) simp_all
  show ?case
  proof (cases "i = j")
    case True
    with step show ?thesis by simp
  next
    case False
    with Suc.prems Suc.IH step show ?thesis by simp
  qed
qed

lemma join_take_inj:
  assumes "\<forall>p \<in> set ps. p \<noteq> []" "i \<le> length ps" "j \<le> length ps"
    and "join sep (take i ps) = join sep (take j ps)"
  shows "i = j"
proof (rule ccontr)
  assume "i \<noteq> j"
  then consider "i < j" | "j < i" by linarith
  then show False
    using join_take_mono [OF assms(1), of i j sep] join_take_mono [OF assms(1), of j i sep] assms
    by cases auto
qed

lemma set_join: "set (join sep ps) \<subseteq> set sep \<union> \<Union> (set ` set ps)"
  by (induction sep ps rule: join.induct) auto

lemma version_parts:
  "release v \<noteq> [] \<Longrightarrow> split_on CHR ''.'' (version_str v) = map str_nat (release v)"
  unfolding version_str_def
  by (rule split_on_join) (auto simp: str_nat_no_sep)

lemma strip_version_take:
  assumes "2 \<le> length (release v)" "n \<in> set options"
  shows "strip_version (Some v) n =
           join ''.'' (take (nat (int (length (release v)) + n)) (map str_nat (release v)))"
proof -
  from assms(1) have ne: "release v \<noteq> []" by auto
  show ?thesis
  proof (cases "n = 0")
    case True
    then show ?thesis
      by (simp add: strip_version_def version_parts [OF ne] )
  next
    case False
    with assms(2) have "n < 0" by (auto simp: options_def)
    then show ?thesis
      by (simp add: strip_version_def slice_to_def version_parts [OF ne])
  qed
qed

lemma strip_version_inj:
  assumes "two_components v" "n \<in> set options" "n' \<in> set options"
    and "strip_version v n = strip_version v n'"
  shows "n = n'"
proof -
  from assms(1) obtain x where v: "v = Some x" and len: "2 \<le> length (release x)"
    by (auto simp: two_components_def split: option.splits)
  let ?ps = "map str_nat (release x)"
  have ne: "\<forall>p \<in> set ?ps. p \<noteq> []"
    by (auto simp: str_nat_not_Nil)
  have "join ''.'' (take (nat (int (length (release x)) + n)) ?ps) =
        join ''.'' (take (nat (int (length (release x)) + n')) ?ps)"
    using assms(4) unfolding v strip_version_take [OF len assms(2)] strip_version_take [OF len assms(3)] .
  moreover have "nat (int (length (release x)) + n) \<le> length ?ps"
    "nat (int (length (release x)) + n') \<le> length ?ps"
    using assms(2,3) by (auto simp: options_def)
  ultimately have "nat (int (length (release x)) + n) = nat (int (length (release x)) + n')"
    using join_take_inj [OF ne] by blast
  with len assms(2,3) show ?thesis by (auto simp: options_def)
qed

lemma strip_version_no_dash:
  assumes "two_components v" "n \<in> set options"
  shows "CHR ''-'' \<notin> set (strip_version v n)"
proof -
  from assms(1) obtain x where v: "v = Some x" and len: "2 \<le> length (release x)"
    by (auto simp: two_components_def split: option.splits)
  have "set (strip_version v n) \<subseteq> set ''.'' \<union> \<Union> (set ` set (map str_nat (release x)))"
    unfolding v strip_version_take [OF len assms(2)]
    using set_join [of "''.''" "take (nat (int (length (release x)) + n)) (map str_nat (release x))"]
      set_take_subset [of "nat (int (length (release x)) + n)" "map str_nat (release x)"]
    by blast
  then show ?thesis using str_nat_no_sep(2) by auto
qed

lemma append_sep_inj:
  "c \<notin> set a \<Longrightarrow> c \<notin> set a' \<Longrightarrow> a @ c # b = a' @ c # b' \<Longrightarrow> a = a' \<and> b = b'"
proof (induction a arbitrary: a')
  case Nil
  then show ?case by (cases a') auto
next
  case (Cons x a)
  then show ?case by (cases a') auto
qed

lemma tag_key_inj:
  assumes "two_components (python_version d)" "two_components (node_version d)"
    and "t \<in> set offset_pairs" "t' \<in> set offset_pairs"
    and "tag_key (fst t) (snd t) d = tag_key (fst t') (snd t') d"
  shows "t = t'"
proof -
  from assms(3,4) have o: "fst t \<in> set options" "snd t \<in> set options"
    "fst t' \<in> set options" "snd t' \<in> set options"
    by (auto simp: offset_pairs_def)
  have "strip_version (python_version d) (fst t) @ CHR ''-'' # strip_version (node_version d) (snd t) =
        strip_version (python_version d) (fst t') @ CHR ''-'' # strip_version (node_version d) (snd t')"
    using assms(5) by (simp add: tag_key_def)
  from append_sep_inj [OF strip_version_no_dash [OF assms(1) o(1)]
      strip_version_no_dash [OF assms(1) o(3)] this]
  have "strip_version (python_version d) (fst t) = strip_version (python_version d) (fst t')"
    "strip_version (node_version d) (snd t) = strip_version (node_version d) (snd t')"
    by simp_all
  with strip_version_inj [OF assms(1) o(1) o(3)] strip_version_inj [OF assms(2) o(2) o(4)]
  show ?thesis by (simp add: prod_eq_iff)
qed

lemma read_dockerfiles_versions:
  "read_dockerfiles fs paths = Inr dfs \<Longrightarrow> d \<in> set dfs \<Longrightarrow>
     get_versions_from_dockerfile fs (dockerfile_path d) =
       Inr (python_version d, node_version d)"
proof (induction paths arbitrary: dfs)
  case Nil
  then show ?case by simp
next
  case (Cons p ps)
  from Cons.prems(1) obtain versions rest where
    v: "get_versions_from_dockerfile fs p = Inr versions" and
    r: "read_dockerfiles fs ps = Inr rest" and
    dfs: "dfs = \<lparr>dockerfile_path = p, python_version = fst versions,
                   node_version = snd versions\<rparr> # rest"
    by (auto split: sum.splits)
  show ?case
  proof (cases "d \<in> set rest")
    case True
    from Cons.IH [OF r True] show ?thesis .
  next
    case False
    with Cons.prems(2) dfs v show ?thesis by auto
  qed
qed

lemma distinct_concat_map:
  "distinct ts \<Longrightarrow> (\<forall>t \<in> set ts. distinct (f t)) \<Longrightarrow>
   (\<forall>t \<in> set ts. \<forall>t' \<in> set ts. t \<noteq> t' \<longrightarrow> set (f t) \<inter> set (f t') = {}) \<Longrightarrow>
   distinct (concat (map f ts))"
  by (induction ts) auto

lemma tags_in_mem: "k \<in> set (tags_in p items) \<longleftrightarrow> (k, p) \<in> set items"
  by (force simp: tags_in_def)

lemma tags_in_distinct: "distinct (tags_in p (group_by_version ds po no))"
  unfolding tags_in_def
  by (rule distinct_map_filter) (rule group_by_version_distinct)

lemma tag_key_versions:
  "python_version d = python_version d' \<Longrightarrow> node_version d = node_version d' \<Longrightarrow>
     tag_key po no d = tag_key po no d'"
  by (simp add: tag_key_def)

lemma distinct_offset_pairs: "distinct offset_pairs"
  by (simp add: offset_pairs_def options_def)

lemma group_by_version_member:
  "(k, p) \<in> set (group_by_version ds po no) \<Longrightarrow>
     \<exists>d \<in> set ds. dockerfile_path d = p \<and> tag_key po no d = k"
  unfolding group_by_version_mem find_Some_iff by auto

lemma mixed_tags:
  "dockerfile_tags mixed_fs
     [''dockerfiles/3.9-14/Dockerfile'', ''dockerfiles/3.9-14.15/Dockerfile''] =
     Inr [(''dockerfiles/3.9-14.15/Dockerfile'',
           [''3-14'', ''3-14.15'', ''3-14.15.0'', ''3.9-14'', ''3.9-14.15'',
            ''3.9-14.15.0'', ''3.9.1-14'', ''3.9.1-14.15'', ''3.9.1-14.15.0'']),
          (''dockerfiles/3.9-14/Dockerfile'',
           [''3-'', ''3-'', ''3-14'', ''3.9-'', ''3.9-'', ''3.9-14'',
            ''3.9.1-'', ''3.9.1-'', ''3.9.1-14''])]"
  "read_dockerfiles mixed_fs
     [''dockerfiles/3.9-14/Dockerfile'', ''dockerfiles/3.9-14.15/Dockerfile''] =
     Inr [\<lparr>dockerfile_path = ''dockerfiles/3.9-14/Dockerfile'',
            python_version = Some (Version [3, 9, 1]),
            node_version = Some (Version [14])\<rparr>,
          \<lparr>dockerfile_path = ''dockerfiles/3.9-14.15/Dockerfile'',
            python_version = Some (Version [3, 9, 1]),
            node_version = Some (Version [14, 15, 0])\<rparr>]"
  by code_simp+

text \<open>
  C2, as amended. Every file of the output mapping has one entry; its tag list is the
  concatenation, over the nine offset pairs in the order of the Cartesian product, of
  the TagKeys that the file represents under that pair, in the order in which the pair's
  keys were first produced. Within one offset pair no TagKey is repeated. When the
  file's own python and node versions are present and have at least two dot-separated
  components each, no TagKey is repeated in its whole list, whatever the other files
  are.
\<close>

theorem tag_lists:
  assumes "dockerfile_tags fs paths = Inr m" and "(p, tags) \<in> set m"
  shows "\<exists>dfs ds. read_dockerfiles fs paths = Inr dfs \<and> sort_reverse dfs = Inr ds \<and>
     distinct (map fst m) \<and>
     tags = concat (map (\<lambda>t. tags_in p (group_by_version ds (fst t) (snd t))) offset_pairs) \<and>
     (\<forall>t \<in> set offset_pairs. distinct (tags_in p (group_by_version ds (fst t) (snd t)))) \<and>
     ((\<forall>d \<in> set dfs. dockerfile_path d = p \<longrightarrow>
          two_components (python_version d) \<and> two_components (node_version d))
        \<longrightarrow> distinct tags)"
proof -
  from assms(1) obtain dfs ds where rd: "read_dockerfiles fs paths = Inr dfs"
    and sr: "sort_reverse dfs = Inr ds" and m: "m = collect_tags ds"
    by (auto simp: dockerfile_tags_def build_tags_def split: sum.splits)
  let ?f = "\<lambda>t. tags_in p (group_by_version ds (fst t) (snd t))"
  have dm: "distinct (map fst m)"
    unfolding m by (rule collect_tags_distinct)
  with assms(2) have "map_of m p = Some tags" by simp
  then have tags: "tags = concat (map ?f offset_pairs)"
    unfolding m collect_tags_map_of by (simp split: if_splits)
  have each: "\<forall>t \<in> set offset_pairs. distinct (?f t)"
    by (simp add: tags_in_distinct)
  have all: "distinct tags"
    if two: "\<forall>d \<in> set dfs. dockerfile_path d = p \<longrightarrow>
      two_components (python_version d) \<and> two_components (node_version d)"
  proof -
    have same_set: "set ds = set dfs"
      using sort_reverse_descending(2) [OF sr] by (metis set_mset_mset)
    have disjoint: "set (?f t) \<inter> set (?f t') = {}"
      if t: "t \<in> set offset_pairs" "t' \<in> set offset_pairs" "t \<noteq> t'" for t t'
    proof (rule ccontr)
      assume "set (?f t) \<inter> set (?f t') \<noteq> {}"
      then obtain k where "(k, p) \<in> set (group_by_version ds (fst t) (snd t))"
        "(k, p) \<in> set (group_by_version ds (fst t') (snd t'))"
        by (auto simp: tags_in_mem)
      then obtain d d' where d: "d \<in> set ds" "dockerfile_path d = p" "tag_key (fst t) (snd t) d = k"
        and d': "d' \<in> set ds" "dockerfile_path d' = p" "tag_key (fst t') (snd t') d' = k"
        using group_by_version_member by blast
      from d(1) d'(1) same_set have in_dfs: "d \<in> set dfs" "d' \<in> set dfs" by simp_all
      from read_dockerfiles_versions [OF rd in_dfs(1)] read_dockerfiles_versions [OF rd in_dfs(2)]
        d(2) d'(2)
      have "python_version d = python_version d'" "node_version d = node_version d'"
        by simp_all
      from tag_key_versions [OF this] d'(3) have "tag_key (fst t') (snd t') d = k" by simp
      with d(3) have "tag_key (fst t) (snd t) d = tag_key (fst t') (snd t') d" by simp
      with two in_dfs(1) d(2) t(1,2) have "t = t'"
        by (intro tag_key_inj [of d]) simp_all
      with t(3) show False by contradiction
    qed
    show ?thesis
      unfolding tags
      using distinct_offset_pairs each disjoint by (intro distinct_concat_map) blast+
  qed
  from rd sr dm tags each all show ?thesis by blast
qed

theorem tag_lists_witness:
  "dockerfile_tags mixed_fs
     [''dockerfiles/3.9-14/Dockerfile'', ''dockerfiles/3.9-14.15/Dockerfile''] =
     Inr [(''dockerfiles/3.9-14.15/Dockerfile'',
           [''3-14'', ''3-14.15'', ''3-14.15.0'', ''3.9-14'', ''3.9-14.15'',
            ''3.9-14.15.0'', ''3.9.1-14'', ''3.9.1-14.15'', ''3.9.1-14.15.0'']),
          (''dockerfiles/3.9-14/Dockerfile'',
           [''3-'', ''3-'', ''3-14'', ''3.9-'', ''3.9-'', ''3.9-14'',
            ''3.9.1-'', ''3.9.1-'', ''3.9.1-14''])] \<and>
   two_components (Some (Version [3, 9, 1])) \<and>
   two_components (Some (Version [14, 15, 0])) \<and>
   \<not> two_components (Some (Version [14])) \<and>
   distinct [''3-14'', ''3-14.15'', ''3-14.15.0'', ''3.9-14'', ''3.9-14.15'',
            ''3.9-14.15.0'', ''3.9.1-14'', ''3.9.1-14.15'', ''3.9.1-14.15.0'']"
proof -
  let ?p = "''dockerfiles/3.9-14.15/Dockerfile''"
  let ?tags = "[''3-14'', ''3-14.15'', ''3-14.15.0'', ''3.9-14'', ''3.9-14.15'',
            ''3.9-14.15.0'', ''3.9.1-14'', ''3.9.1-14.15'', ''3.9.1-14.15.0'']"
  have two: "two_components (Some (Version [3, 9, 1]))" "two_components (Some (Version [14, 15, 0]))"
    "\<not> two_components (Some (Version [14]))"
    by (simp_all add: two_components_def)
  have "(?p, ?tags) \<in> set [(?p, ?tags),
          (''dockerfiles/3.9-14/Dockerfile'',
           [''3-'', ''3-'', ''3-14'', ''3.9-'', ''3.9-'', ''3.9-14'',
            ''3.9.1-'', ''3.9.1-'', ''3.9.1-14''])]"
    by simp
  from tag_lists [OF mixed_tags(1) this] mixed_tags(2) two have "distinct ?tags"
    by auto
  with mixed_tags(1) two show ?thesis by blast
qed

text \<open>
  The claim C2 as stated fails: a node version with the single component \<open>14\<close>
  truncates to the empty string under the offsets \<open>-2\<close> and \<open>-1\<close>, and the tag
  list of that file has \<open>3-\<close>, \<open>3.9-\<close> and \<open>3.9.1-\<close> twice each.
\<close>

theorem tag_lists_repeat:
  "dockerfile_tags mixed_fs
     [''dockerfiles/3.9-14/Dockerfile'', ''dockerfiles/3.9-14.15/Dockerfile''] =
     Inr [(''dockerfiles/3.9-14.15/Dockerfile'',
           [''3-14'', ''3-14.15'', ''3-14.15.0'', ''3.9-14'', ''3.9-14.15'',
            ''3.9-14.15.0'', ''3.9.1-14'', ''3.9.1-14.15'', ''3.9.1-14.15.0'']),
          (''dockerfiles/3.9-14/Dockerfile'',
           [''3-'', ''3-'', ''3-14'', ''3.9-'', ''3.9-'', ''3.9-14'',
            ''3.9.1-'', ''3.9.1-'', ''3.9.1-14''])] \<and>
   \<not> distinct [''3-'', ''3-'', ''3-14'', ''3.9-'', ''3.9-'', ''3.9-14'',
                ''3.9.1-'', ''3.9.1-'', ''3.9.1-14'']"
  using mixed_tags(1) by simp

section \<open>The stage record\<close>

lemma filter_map_all: "(\<And>x. P (f x)) \<Longrightarrow> filter P (map f xs) = map f xs"
  by (induction xs) auto

lemma filter_map_none: "(\<And>x. \<not> P (f x)) \<Longrightarrow> filter P (map f xs) = []"
  by (induction xs) auto

lemma build_command_lines:
  "is_build_command (build_line p)"
  "\<not> is_build_command (tag_line t)"
  "\<not> is_build_command (push_line t)"
  by (simp_all add: is_build_command_def build_line_def tag_line_def push_line_def
        startswith_def)

lemma tag_command_lines:
  "is_tag_command (tag_line t)"
  "\<not> is_tag_command (build_line p)"
  "\<not> is_tag_command (push_line t)"
  by (simp_all add: is_tag_command_def build_line_def tag_line_def push_line_def
        startswith_def)

lemma push_command_lines:
  "is_push_command (push_line t)"
  "\<not> is_push_command (build_line p)"
  "\<not> is_push_command (tag_line t)"
  by (simp_all add: is_push_command_def build_line_def tag_line_def push_line_def
        startswith_def)

lemma script_builds: "filter is_build_command (stage_script p tags) = [build_line p]"
  by (simp add: stage_script_def filter_map_none build_command_lines)
     (simp add: is_build_command_def startswith_def)

lemma script_tags: "filter is_tag_command (stage_script p tags) = map tag_line tags"
  by (simp add: stage_script_def filter_map_none filter_map_all tag_command_lines)
     (simp add: is_tag_command_def startswith_def)

lemma script_pushes: "filter is_push_command (stage_script p tags) = map push_line tags"
  by (simp add: stage_script_def filter_map_none filter_map_all push_command_lines)
     (simp add: is_push_command_def startswith_def)

lemma dirname_parent:
  assumes "dir \<noteq> []" "last dir \<noteq> CHR ''/''" "CHR ''/'' \<notin> set name"
  shows "dirname (dir @ ''/'' @ name) = dir"
proof -
  have "dropWhile (\<lambda>c. c \<noteq> CHR ''/'') (rev name @ CHR ''/'' # rev dir) = CHR ''/'' # rev dir"
    using assms(3) by (auto simp: dropWhile_append3)
  then have head: "rev (dropWhile (\<lambda>c. c \<noteq> CHR ''/'') (rev (dir @ ''/'' @ name))) = dir @ ''/''"
    by simp
  have not_slashes: "dir @ ''/'' \<noteq> replicate (length (dir @ ''/'')) CHR ''/''"
  proof
    assume eq: "dir @ ''/'' = replicate (length (dir @ ''/'')) CHR ''/''"
    have mem: "last dir \<in> set (dir @ ''/'')"
      using assms(1) by simp
    have "last dir \<in> set (replicate (length (dir @ ''/'')) CHR ''/'')"
      by (subst eq [symmetric]) (rule mem)
    then have "last dir = CHR ''/''"
      by (simp only: in_set_replicate)
    with assms(2) show False by contradiction
  qed
  have strip: "rstrip_sep (dir @ ''/'') = dir"
  proof -
    from assms(1) obtain c cs where r: "rev dir = c # cs"
      by (cases "rev dir") auto
    then have "dir = rev cs @ [c]"
      by (metis rev_rev_ident rev.simps(2))
    then have "last dir = c" by simp
    with assms(2) have "c \<noteq> CHR ''/''" by simp
    then have "dropWhile (\<lambda>c. c = CHR ''/'') (rev (dir @ ''/'')) = rev dir"
      by (simp add: r)
    then show ?thesis by (simp add: rstrip_sep_def)
  qed
  have "dir @ ''/'' \<noteq> []" by simp
  with not_slashes strip show ?thesis
    unfolding dirname_def head Let_def by simp
qed

lemma make_build_stage_fields:
  "yaml_get (make_build_stage path tags) ''stage'' = Some (YStr ''Image Builds'')"
  "yaml_get (make_build_stage path tags) ''name'' = Some (YStr (join '', '' tags))"
  "yaml_get (make_build_stage path tags) ''if'' = Some (YStr ''type NOT IN (cron)'')"
  "yaml_get (make_build_stage path tags) ''script'' =
     Some (YList (map YStr (stage_script path tags)))"
  by (simp_all add: make_build_stage_def)

lemma stage_script_lines:
  "stage_script path tags =
     [''set -e'',
      ''echo \"$DOCKER_PASSWORD\" | docker login --username \"$DOCKER_USERNAME\" --password-stdin'',
      ''# run tests'',
      ''travis_retry docker build -t austinpray/python-node '' @ dirname path]
     @ map (\<lambda>tag. ''docker tag austinpray/python-node austinpray/python-node:'' @ tag) tags
     @ map (\<lambda>tag. ''[ \"$TRAVIS_BRANCH\" = \"master\" ] && docker push austinpray/python-node:''
                      @ tag) tags"
  unfolding stage_script_def build_line_def
  by (simp add: tag_line_def [abs_def] push_line_def [abs_def])

text \<open>
  C6. For every file path and every tag list of length \<open>n\<close> (empty or not), the stage
  record has the tags joined by a comma and a space as its name and the condition that
  skips cron runs. Its script is the three fixed lines, then the one build command of
  the script, which targets \<^verbatim>\<open>dirname\<close> of the path (for a path \<open>dir/name\<close>, the
  directory \<open>dir\<close>), then for each tag, in the order of the tag list, the line that
  tags the image with that tag, then for each tag, in the same order, the line that
  pushes that tag on the master branch; so it has exactly \<open>n\<close> tag lines and exactly
  \<open>n\<close> push lines.
\<close>

theorem make_build_stage_record:
  "yaml_get (make_build_stage path tags) ''name'' = Some (YStr (join '', '' tags)) \<and>
   yaml_get (make_build_stage path tags) ''if'' = Some (YStr ''type NOT IN (cron)'') \<and>
   yaml_get (make_build_stage path tags) ''script'' =
     Some (YList (map YStr (stage_script path tags))) \<and>
   stage_script path tags =
     [''set -e'',
      ''echo \"$DOCKER_PASSWORD\" | docker login --username \"$DOCKER_USERNAME\" --password-stdin'',
      ''# run tests'',
      ''travis_retry docker build -t austinpray/python-node '' @ dirname path]
     @ map (\<lambda>tag. ''docker tag austinpray/python-node austinpray/python-node:'' @ tag) tags
     @ map (\<lambda>tag. ''[ \"$TRAVIS_BRANCH\" = \"master\" ] && docker push austinpray/python-node:''
                      @ tag) tags \<and>
   filter is_build_command (stage_script path tags) =
     [''travis_retry docker build -t austinpray/python-node '' @ dirname path] \<and>
   drop 3 (stage_script path tags) =
     [''travis_retry docker build -t austinpray/python-node '' @ dirname path]
       @ map tag_line tags @ map push_line tags \<and>
   filter is_tag_command (stage_script path tags) =
     map (\<lambda>tag. ''docker tag austinpray/python-node austinpray/python-node:'' @ tag) tags \<and>
   filter is_push_command (stage_script path tags) =
     map (\<lambda>tag. ''[ \"$TRAVIS_BRANCH\" = \"master\" ] && docker push austinpray/python-node:''
                    @ tag) tags \<and>
   filter is_tag_command (stage_script path tags) = map tag_line tags \<and>
   filter is_push_command (stage_script path tags) = map push_line tags \<and>
   length (filter is_tag_command (stage_script path tags)) = length tags \<and>
   length (filter is_push_command (stage_script path tags)) = length tags \<and>
   (dir \<noteq> [] \<and> last dir \<noteq> CHR ''/'' \<and> CHR ''/'' \<notin> set name \<longrightarrow>
      dirname (dir @ ''/'' @ name) = dir) \<and>
   join '', '' [] = [] \<and>
   join '', '' [a] = a \<and>
   join '', '' (a # b # rest) = a @ '', '' @ join '', '' (b # rest)"
proof -
  have rest: "drop 3 (stage_script path tags) =
     [''travis_retry docker build -t austinpray/python-node '' @ dirname path]
       @ map tag_line tags @ map push_line tags"
    by (simp add: stage_script_def build_line_def)
  have spelled:
    "map tag_line tags =
       map (\<lambda>tag. ''docker tag austinpray/python-node austinpray/python-node:'' @ tag) tags"
    "map push_line tags =
       map (\<lambda>tag. ''[ \"$TRAVIS_BRANCH\" = \"master\" ] && docker push austinpray/python-node:''
                      @ tag) tags"
    by (simp_all add: tag_line_def [abs_def] push_line_def [abs_def])
  have parent: "dir \<noteq> [] \<and> last dir \<noteq> CHR ''/'' \<and> CHR ''/'' \<notin> set name \<longrightarrow>
      dirname (dir @ ''/'' @ name) = dir"
    using dirname_parent by blast
  have builds: "filter is_build_command (stage_script path tags) =
     [''travis_retry docker build -t austinpray/python-node '' @ dirname path]"
    using script_builds [of path tags] by (simp only: build_line_def)
  have tags_: "filter is_tag_command (stage_script path tags) = map tag_line tags"
    and pushes: "filter is_push_command (stage_script path tags) = map push_line tags"
    by (rule script_tags, rule script_pushes)
  have counts: "length (filter is_tag_command (stage_script path tags)) = length tags"
    "length (filter is_push_command (stage_script path tags)) = length tags"
    by (simp_all only: tags_ pushes length_map)
  have joins: "join '', '' [] = []" "join '', '' [a] = a"
    "join '', '' (a # b # rest) = a @ '', '' @ join '', '' (b # rest)"
    by (simp_all only: join.simps)
  show ?thesis
    apply (intro conjI)
    apply (rule make_build_stage_fields(2))
    apply (rule make_build_stage_fields(3))
    apply (rule make_build_stage_fields(4))
    apply (rule stage_script_lines)
    apply (rule builds)
    apply (rule rest)
    apply (simp only: tags_ spelled)
    apply (simp only: pushes spelled)
    apply (rule tags_)
    apply (rule pushes)
    apply (rule counts(1))
    apply (rule counts(2))
    apply (rule parent)
    apply (rule joins(1))
    apply (rule joins(2))
    apply (rule joins(3))
    done
qed

lemma example_stage:
  "make_build_stage ''dockerfiles/3.9-14/Dockerfile'' [''3.9-14'', ''3.9.1-14.2.0''] =
     YDict [(YStr ''stage'', YStr ''Image Builds''),
            (YStr ''name'', YStr ''3.9-14, 3.9.1-14.2.0''),
            (YStr ''if'', YStr ''type NOT IN (cron)''),
            (YStr ''script'',
             YList [YStr ''set -e'',
                    YStr ''echo \"$DOCKER_PASSWORD\" | docker login --username \"$DOCKER_USERNAME\" --password-stdin'',
                    YStr ''# run tests'',
                    YStr ''travis_retry docker build -t austinpray/python-node dockerfiles/3.9-14'',
                    YStr ''docker tag austinpray/python-node austinpray/python-node:3.9-14'',
                    YStr ''docker tag austinpray/python-node austinpray/python-node:3.9.1-14.2.0'',
                    YStr ''[ \"$TRAVIS_BRANCH\" = \"master\" ] && docker push austinpray/python-node:3.9-14'',
                    YStr ''[ \"$TRAVIS_BRANCH\" = \"master\" ] && docker push austinpray/python-node:3.9.1-14.2.0''])]"
  by code_simp

theorem make_build_stage_record_witness:
  "''dockerfiles/3.9-14'' \<noteq> [] \<and>
   last ''dockerfiles/3.9-14'' \<noteq> CHR ''/'' \<and>
   CHR ''/'' \<notin> set ''Dockerfile'' \<and>
   dirname ''dockerfiles/3.9-14/Dockerfile'' = ''dockerfiles/3.9-14'' \<and>
   stage_script ''dockerfiles/3.9-14/Dockerfile'' [''3.9-14'', ''3.9.1-14.2.0''] =
     [''set -e'',
      ''echo \"$DOCKER_PASSWORD\" | docker login --username \"$DOCKER_USERNAME\" --password-stdin'',
      ''# run tests'',
      ''travis_retry docker build -t austinpray/python-node dockerfiles/3.9-14'',
      ''docker tag austinpray/python-node austinpray/python-node:3.9-14'',
      ''docker tag austinpray/python-node austinpray/python-node:3.9.1-14.2.0'',
      ''[ \"$TRAVIS_BRANCH\" = \"master\" ] && docker push austinpray/python-node:3.9-14'',
      ''[ \"$TRAVIS_BRANCH\" = \"master\" ] && docker push austinpray/python-node:3.9.1-14.2.0''] \<and>
   make_build_stage ''dockerfiles/3.9-14/Dockerfile'' [''3.9-14'', ''3.9.1-14.2.0''] =
     YDict [(YStr ''stage'', YStr ''Image Builds''),
            (YStr ''name'', YStr ''3.9-14, 3.9.1-14.2.0''),
            (YStr ''if'', YStr ''type NOT IN (cron)''),
            (YStr ''script'',
             YList [YStr ''set -e'',
                    YStr ''echo \"$DOCKER_PASSWORD\" | docker login --username \"$DOCKER_USERNAME\" --password-stdin'',
                    YStr ''# run tests'',
                    YStr ''travis_retry docker build -t austinpray/python-node dockerfiles/3.9-14'',
                    YStr ''docker tag austinpray/python-node austinpray/python-node:3.9-14'',
                    YStr ''docker tag austinpray/python-node austinpray/python-node:3.9.1-14.2.0'',
                    YStr ''[ \"$TRAVIS_BRANCH\" = \"master\" ] && docker push austinpray/python-node:3.9-14'',
                    YStr ''[ \"$TRAVIS_BRANCH\" = \"master\" ] && docker push austinpray/python-node:3.9.1-14.2.0''])]"
proof -
  have h: "''dockerfiles/3.9-14'' \<noteq> []" "last ''dockerfiles/3.9-14'' \<noteq> CHR ''/''"
    "CHR ''/'' \<notin> set ''Dockerfile''"
    by simp_all
  note inst = make_build_stage_record [of "''dockerfiles/3.9-14/Dockerfile''"
      "[''3.9-14'', ''3.9.1-14.2.0'']" "''dockerfiles/3.9-14''" "''Dockerfile''"]
  from inst h have d: "dirname (''dockerfiles/3.9-14'' @ ''/'' @ ''Dockerfile'') = ''dockerfiles/3.9-14''"
    by blast
  then have d': "dirname ''dockerfiles/3.9-14/Dockerfile'' = ''dockerfiles/3.9-14''"
    by simp
  from inst have "stage_script ''dockerfiles/3.9-14/Dockerfile'' [''3.9-14'', ''3.9.1-14.2.0''] =
     [''set -e'',
      ''echo \"$DOCKER_PASSWORD\" | docker login --username \"$DOCKER_USERNAME\" --password-stdin'',
      ''# run tests'',
      ''travis_retry docker build -t austinpray/python-node '' @ dirname ''dockerfiles/3.9-14/Dockerfile'']
     @ map (\<lambda>tag. ''docker tag austinpray/python-node austinpray/python-node:'' @ tag)
         [''3.9-14'', ''3.9.1-14.2.0'']
     @ map (\<lambda>tag. ''[ \"$TRAVIS_BRANCH\" = \"master\" ] && docker push austinpray/python-node:''
                      @ tag) [''3.9-14'', ''3.9.1-14.2.0'']"
    by blast
  then have s: "stage_script ''dockerfiles/3.9-14/Dockerfile'' [''3.9-14'', ''3.9.1-14.2.0''] =
     [''set -e'',
      ''echo \"$DOCKER_PASSWORD\" | docker login --username \"$DOCKER_USERNAME\" --password-stdin'',
      ''# run tests'',
      ''travis_retry docker build -t austinpray/python-node dockerfiles/3.9-14'',
      ''docker tag austinpray/python-node austinpray/python-node:3.9-14'',
      ''docker tag austinpray/python-node austinpray/python-node:3.9.1-14.2.0'',
      ''[ \"$TRAVIS_BRANCH\" = \"master\" ] && docker push austinpray/python-node:3.9-14'',
      ''[ \"$TRAVIS_BRANCH\" = \"master\" ] && docker push austinpray/python-node:3.9.1-14.2.0'']"
    unfolding d' by simp
  from h d' s example_stage show ?thesis by blast
qed

section \<open>Null versions\<close>

lemma comparable_iff:
  "comparable a b \<longleftrightarrow>
     (python_version a = None \<longleftrightarrow> python_version b = None) \<and>
     (py_eq (python_version a) (python_version b) \<longrightarrow>
        (node_version a = None \<longleftrightarrow> node_version b = None))"
  by (cases "python_version a"; cases "python_version b"; cases "node_version a";
      cases "node_version b")
     (auto simp: comparable_def version_key_def)

lemma build_tags_fails_iff:
  "build_tags dfs = Inl TypeError \<longleftrightarrow> (\<exists>a \<in> set dfs. \<exists>b \<in> set dfs. \<not> comparable a b)"
  unfolding sort_reverse_fails_iff [symmetric]
  by (auto simp: build_tags_def split: sum.splits)

lemma build_tags_error: "build_tags dfs = Inl e \<Longrightarrow> e = TypeError"
proof -
  assume "build_tags dfs = Inl e"
  then have "sort_into [] dfs = Inl e"
    by (auto simp: build_tags_def sort_reverse_def sort_dockerfiles_def split: sum.splits)
  from sort_into_fails [OF this] show ?thesis by simp
qed

lemma null_node_tags:
  "build_tags [null_node_df] =
     Inr [(''dockerfiles/a/Dockerfile'',
           [''3-'', ''3-'', ''3-None'', ''3.9-'', ''3.9-'', ''3.9-None'',
            ''3.9.1-'', ''3.9.1-'', ''3.9.1-None''])]"
  by code_simp

lemma strip_version_None:
  "strip_version None 0 = ''None''" "strip_version None (-1) = []" "strip_version None (-2) = []"
  by code_simp+

lemma tag_key_sides:
  "tag_key po no df =
     strip_version (python_version df) po @ ''-'' @ strip_version (node_version df) no"
  by (simp add: tag_key_def)

text \<open>
  C4, as amended. The builder processes an artifact set exactly when every two of its
  entries are comparable, and otherwise the sort raises \<^verbatim>\<open>TypeError\<close>. Two entries are
  comparable unless one has a null and the other a non-null python version, or their
  python versions are equal and one has a null and the other a non-null node version.
  In particular a single entry is always processed. In the TagKeys of a processed
  entry, under each of the nine offset pairs, a null version stands as the string
  \<open>None\<close> when its offset is 0 and as the empty string when its offset is \<open>-1\<close> or
  \<open>-2\<close>.
\<close>

theorem null_version_processing:
  "((\<exists>m. build_tags dfs = Inr m) \<longleftrightarrow> (\<forall>a \<in> set dfs. \<forall>b \<in> set dfs. comparable a b)) \<and>
   (build_tags dfs = Inl TypeError \<longleftrightarrow> (\<exists>a \<in> set dfs. \<exists>b \<in> set dfs. \<not> comparable a b)) \<and>
   (comparable a b \<longleftrightarrow>
      (python_version a = None \<longleftrightarrow> python_version b = None) \<and>
      (py_eq (python_version a) (python_version b) \<longrightarrow>
         (node_version a = None \<longleftrightarrow> node_version b = None))) \<and>
   (\<exists>m. build_tags [df] = Inr m) \<and>
   tag_key 0 0 df = py_str (python_version df) @ ''-'' @ py_str (node_version df) \<and>
   py_str None = ''None'' \<and>
   (python_version df = None \<and> po \<in> set options \<longrightarrow>
      tag_key po no df =
        (if po = 0 then ''None'' else []) @ ''-'' @ strip_version (node_version df) no) \<and>
   (node_version df = None \<and> no \<in> set options \<longrightarrow>
      tag_key po no df =
        strip_version (python_version df) po @ ''-'' @ (if no = 0 then ''None'' else []))"
proof -
  have ok: "(\<exists>m. build_tags dfs = Inr m) \<longleftrightarrow> (\<forall>a \<in> set dfs. \<forall>b \<in> set dfs. comparable a b)"
  proof (cases "build_tags dfs")
    case (Inl e)
    with build_tags_error [OF Inl] build_tags_fails_iff [of dfs] show ?thesis by auto
  next
    case (Inr m)
    with build_tags_fails_iff [of dfs] show ?thesis by auto
  qed
  have single: "\<exists>m. build_tags [df] = Inr m"
  proof (cases "build_tags [df]")
    case (Inl e)
    with build_tags_error [OF Inl] build_tags_fails_iff [of "[df]"] comparable_refl [of df]
    show ?thesis by auto
  next
    case (Inr m)
    then show ?thesis by blast
  qed
  have key: "tag_key 0 0 df = py_str (python_version df) @ ''-'' @ py_str (node_version df)"
    by (simp add: tag_key_def strip_version_def join_split_on)
  have null_side: "n \<in> set options \<longrightarrow> strip_version None n = (if n = 0 then ''None'' else [])"
    for n
    using strip_version_None by (auto simp: options_def)
  have py: "python_version df = None \<and> po \<in> set options \<longrightarrow>
      tag_key po no df =
        (if po = 0 then ''None'' else []) @ ''-'' @ strip_version (node_version df) no"
    using null_side [of po] by (simp add: tag_key_sides)
  have nd: "node_version df = None \<and> no \<in> set options \<longrightarrow>
      tag_key po no df =
        strip_version (python_version df) po @ ''-'' @ (if no = 0 then ''None'' else [])"
    using null_side [of no] by (simp add: tag_key_sides)
  from ok build_tags_fails_iff [of dfs] comparable_iff [of a b] single key py nd show ?thesis
    by simp
qed

theorem null_version_processing_witness:
  "comparable null_node_df null_node_df \<and>
   build_tags [null_node_df] =
     Inr [(''dockerfiles/a/Dockerfile'',
           [''3-'', ''3-'', ''3-None'', ''3.9-'', ''3.9-'', ''3.9-None'',
            ''3.9.1-'', ''3.9.1-'', ''3.9.1-None''])] \<and>
   tag_key 0 0 null_node_df = ''3.9.1-None'' \<and>
   node_version null_node_df = None \<and>
   (-1 :: int) \<in> set options \<and>
   tag_key (-2) 0 null_node_df = ''3-None'' \<and>
   tag_key (-2) (-1) null_node_df = ''3-'' \<and>
   tag_key (-2) (-2) null_node_df = ''3-''"
proof -
  have "(\<exists>m. build_tags [null_node_df] = Inr m) \<longleftrightarrow>
      (\<forall>a \<in> set [null_node_df]. \<forall>b \<in> set [null_node_df]. comparable a b)"
    using null_version_processing [of "[null_node_df]"] by blast
  with null_node_tags have c: "comparable null_node_df null_node_df" by simp
  have n: "node_version null_node_df = None" by (simp add: null_node_df_def)
  have o: "(0 :: int) \<in> set options" "(-1 :: int) \<in> set options" "(-2 :: int) \<in> set options"
    by (simp_all add: options_def)
  have s: "strip_version (python_version null_node_df) (-2) = ''3''"
    by code_simp
  have sides: "node_version null_node_df = None \<and> no \<in> set options \<longrightarrow>
      tag_key (-2) no null_node_df =
        strip_version (python_version null_node_df) (-2) @ ''-'' @
        (if no = 0 then ''None'' else [])" for no
    using null_version_processing [of "[]" null_node_df null_node_df null_node_df "-2" no]
    by blast
  from sides [of 0] sides [of "-1"] sides [of "-2"] n o s
  have k: "tag_key (-2) 0 null_node_df = ''3-None''" "tag_key (-2) (-1) null_node_df = ''3-''"
    "tag_key (-2) (-2) null_node_df = ''3-''"
    by simp_all
  have "tag_key 0 0 null_node_df = ''3.9.1-None''" by code_simp
  with c null_node_tags n o k show ?thesis by blast
qed

text \<open>
  The claim C4 as stated fails: of two Dockerfiles with python 3.9.1, the one without
  a \<^verbatim>\<open>NODE_VERSION\<close> line has a null node version, and the builder raises
  \<^verbatim>\<open>TypeError\<close> instead of processing it.
\<close>

theorem null_version_sort_raises:
  "get_versions_from_dockerfile null_node_fs ''dockerfiles/a/Dockerfile'' =
     Inr (Some (Version [3, 9, 1]), None) \<and>
   get_versions_from_dockerfile null_node_fs ''dockerfiles/b/Dockerfile'' =
     Inr (Some (Version [3, 9, 1]), Some (Version [14, 15, 0])) \<and>
   dockerfile_tags null_node_fs [''dockerfiles/a/Dockerfile'', ''dockerfiles/b/Dockerfile''] =
     Inl TypeError \<and>
   build_tags [null_node_df, artifact_B] = Inl TypeError"
proof -
  have "get_versions_from_dockerfile null_node_fs ''dockerfiles/a/Dockerfile'' =
     Inr (Some (Version [3, 9, 1]), None)"
    by code_simp
  moreover have "get_versions_from_dockerfile null_node_fs ''dockerfiles/b/Dockerfile'' =
     Inr (Some (Version [3, 9, 1]), Some (Version [14, 15, 0]))"
    by code_simp
  moreover have "dockerfile_tags null_node_fs
      [''dockerfiles/a/Dockerfile'', ''dockerfiles/b/Dockerfile''] = Inl TypeError"
    by code_simp
  moreover have "build_tags [null_node_df, artifact_B] = Inl TypeError"
    by code_simp
  ultimately show ?thesis by blast
qed

section \<open>Determinism and the emitted document\<close>

lemma read_dockerfiles_cong:
  "\<forall>p \<in> set paths. get_versions_from_dockerfile fs1 p = get_versions_from_dockerfile fs2 p \<Longrightarrow>
     read_dockerfiles fs1 paths = read_dockerfiles fs2 paths"
proof (induction paths)
  case Nil
  show ?case by simp
next
  case (Cons p ps)
  then have "get_versions_from_dockerfile fs1 p = get_versions_from_dockerfile fs2 p"
    and "read_dockerfiles fs1 ps = read_dockerfiles fs2 ps"
    by simp_all
  then show ?case by (simp only: read_dockerfiles.simps)
qed

lemma sorted_unique:
  assumes "sorted_wrt key_le xs" "sorted_wrt key_le ys" "mset xs = mset ys"
    and "\<forall>a \<in> set xs. \<forall>b \<in> set xs. key_le a b \<and> key_le b a \<longrightarrow> a = b"
  shows "xs = ys"
  using assms
proof (induction xs arbitrary: ys)
  case Nil
  then show ?case by simp
next
  case (Cons x xs)
  from Cons.prems(3) have "ys \<noteq> []" by auto
  then obtain y ys' where ys: "ys = y # ys'" by (cases ys) auto
  have sets: "set (x # xs) = set (y # ys')"
    using Cons.prems(3) unfolding ys by (metis set_mset_mset)
  have xy: "key_le x y"
  proof (cases "y = x")
    case True
    then show ?thesis by (simp add: key_le_def tuple_lt_refl)
  next
    case False
    with sets have "y \<in> set xs" by auto
    with Cons.prems(1) show ?thesis by simp
  qed
  have yx: "key_le y x"
  proof (cases "x = y")
    case True
    then show ?thesis by (simp add: key_le_def tuple_lt_refl)
  next
    case False
    with sets have "x \<in> set ys'" by auto
    with Cons.prems(2) ys show ?thesis by simp
  qed
  have "y \<in> set (x # xs)" using sets by simp
  moreover have "x \<in> set (x # xs)" by simp
  ultimately have eq: "x = y" using xy yx Cons.prems(4) by blast
  with Cons.prems(3) ys have m: "mset xs = mset ys'" by simp
  have "xs = ys'"
    using Cons.prems(1,2,4) ys m by (intro Cons.IH) simp_all
  with eq ys show ?case by simp
qed

lemma build_tags_order_free:
  assumes perm: "mset dfs' = mset dfs"
    and strict: "\<forall>a \<in> set dfs. \<forall>b \<in> set dfs. not_above a b \<and> not_above b a \<longrightarrow> a = b"
  shows "build_tags dfs' = build_tags dfs"
proof -
  have sets: "set dfs' = set dfs"
    using perm by (metis set_mset_mset)
  show ?thesis
  proof (cases "sort_reverse dfs")
    case (Inl e)
    then have "build_tags dfs = Inl e" by (simp add: build_tags_def)
    then have e: "build_tags dfs = Inl TypeError"
      using build_tags_error by blast
    then have "\<exists>a \<in> set dfs'. \<exists>b \<in> set dfs'. \<not> comparable a b"
      unfolding sets build_tags_fails_iff .
    then have "build_tags dfs' = Inl TypeError"
      unfolding build_tags_fails_iff .
    with e show ?thesis by simp
  next
    case (Inr ds)
    have "\<not> (\<exists>a \<in> set dfs. \<exists>b \<in> set dfs. \<not> comparable a b)"
      using Inr unfolding sort_reverse_fails_iff [symmetric] by simp
    then have "sort_reverse dfs' \<noteq> Inl TypeError"
      unfolding sort_reverse_fails_iff sets .
    moreover have "sort_reverse dfs' = Inl e \<Longrightarrow> e = TypeError" for e
      using sort_into_fails [of "[]" dfs' e]
      by (auto simp: sort_reverse_def sort_dockerfiles_def split: sum.splits)
    ultimately obtain ds' where ds': "sort_reverse dfs' = Inr ds'"
      by (cases "sort_reverse dfs'") auto
    note a = sort_reverse_descending [OF Inr] and b = sort_reverse_descending [OF ds']
    have "sorted_wrt key_le (rev ds)" "sorted_wrt key_le (rev ds')"
      using a(1) b(1) by (simp_all add: sorted_wrt_rev)
    moreover have "mset (rev ds) = mset (rev ds')"
      using a(2) b(2) perm by simp
    moreover have "\<forall>a \<in> set (rev ds). \<forall>b \<in> set (rev ds). key_le a b \<and> key_le b a \<longrightarrow> a = b"
    proof -
      have "set (rev ds) = set dfs"
        using a(2) by (metis set_mset_mset set_rev)
      with strict key_le_not_above show ?thesis by blast
    qed
    ultimately have "rev ds = rev ds'" by (rule sorted_unique)
    with Inr ds' show ?thesis by (simp add: build_tags_def)
  qed
qed

text \<open>
  C9. Two runs of the builder on the same paths in the same order, in file systems
  that give every one of these paths the same parsed versions, return the same
  outcome: the same mapping, with the same key order and the same tag lists, or the
  same exception. Moreover the outcome does not depend on the discovery order when no
  two different entries have equal version combinations: any reordering of the entries
  gives the same mapping, key order and tag-list order included.
\<close>

theorem builder_deterministic:
  "((\<forall>p \<in> set paths.
       get_versions_from_dockerfile fs1 p = get_versions_from_dockerfile fs2 p) \<longrightarrow>
      dockerfile_tags fs1 paths = dockerfile_tags fs2 paths) \<and>
   (mset dfs' = mset dfs \<and>
    (\<forall>a \<in> set dfs. \<forall>b \<in> set dfs. not_above a b \<and> not_above b a \<longrightarrow> a = b) \<longrightarrow>
      build_tags dfs' = build_tags dfs)"
proof -
  have "dockerfile_tags fs1 paths = dockerfile_tags fs2 paths"
    if "\<forall>p \<in> set paths.
          get_versions_from_dockerfile fs1 p = get_versions_from_dockerfile fs2 p"
    using read_dockerfiles_cong [OF that] by (simp add: dockerfile_tags_def)
  moreover have "build_tags dfs' = build_tags dfs"
    if "mset dfs' = mset dfs"
      "\<forall>a \<in> set dfs. \<forall>b \<in> set dfs. not_above a b \<and> not_above b a \<longrightarrow> a = b"
    using that by (rule build_tags_order_free)
  ultimately show ?thesis by blast
qed

lemma scrambled_strict:
  "\<forall>a \<in> set [artifact_B, artifact_C, artifact_A].
     \<forall>b \<in> set [artifact_B, artifact_C, artifact_A]. not_above a b \<and> not_above b a \<longrightarrow> a = b"
  by code_simp

lemma node_b_tags:
  "dockerfile_tags null_node_fs [''dockerfiles/b/Dockerfile''] =
     Inr [(''dockerfiles/b/Dockerfile'',
           [''3-14'', ''3-14.15'', ''3-14.15.0'', ''3.9-14'', ''3.9-14.15'',
            ''3.9-14.15.0'', ''3.9.1-14'', ''3.9.1-14.15'', ''3.9.1-14.15.0''])]"
  by code_simp

theorem builder_deterministic_witness:
  "get_versions_from_dockerfile null_node_fs ''dockerfiles/b/Dockerfile'' =
     get_versions_from_dockerfile (null_node_fs\<lparr>stdout := [''later run'']\<rparr>)
       ''dockerfiles/b/Dockerfile'' \<and>
   dockerfile_tags null_node_fs [''dockerfiles/b/Dockerfile''] =
     Inr [(''dockerfiles/b/Dockerfile'',
           [''3-14'', ''3-14.15'', ''3-14.15.0'', ''3.9-14'', ''3.9-14.15'',
            ''3.9-14.15.0'', ''3.9.1-14'', ''3.9.1-14.15'', ''3.9.1-14.15.0''])] \<and>
   dockerfile_tags (null_node_fs\<lparr>stdout := [''later run'']\<rparr>) [''dockerfiles/b/Dockerfile''] =
     Inr [(''dockerfiles/b/Dockerfile'',
           [''3-14'', ''3-14.15'', ''3-14.15.0'', ''3.9-14'', ''3.9-14.15'',
            ''3.9-14.15.0'', ''3.9.1-14'', ''3.9.1-14.15'', ''3.9.1-14.15.0''])] \<and>
   mset [artifact_A, artifact_B, artifact_C] = mset [artifact_B, artifact_C, artifact_A] \<and>
   build_tags [artifact_A, artifact_B, artifact_C] =
     Inr [(''dockerfiles/3.10-12.0/Dockerfile'',
           [''3-12'', ''3-12.0'', ''3-12.0.1'', ''3.10-12'', ''3.10-12.0'', ''3.10-12.0.1'',
            ''3.10.0-12'', ''3.10.0-12.0'', ''3.10.0-12.0.1'']),
          (''dockerfiles/3.9-14.15/Dockerfile'',
           [''3-14'', ''3-14.15'', ''3-14.15.0'', ''3.9-14'', ''3.9-14.15'',
            ''3.9-14.15.0'', ''3.9.1-14'', ''3.9.1-14.15'', ''3.9.1-14.15.0'']),
          (''dockerfiles/3.9-14.2/Dockerfile'',
           [''3-14.2'', ''3-14.2.0'', ''3.9-14.2'', ''3.9-14.2.0'',
            ''3.9.1-14.2'', ''3.9.1-14.2.0''])]"
proof -
  let ?fs2 = "null_node_fs\<lparr>stdout := [''later run'']\<rparr>"
  have same: "get_versions_from_dockerfile null_node_fs ''dockerfiles/b/Dockerfile'' =
     get_versions_from_dockerfile ?fs2 ''dockerfiles/b/Dockerfile''"
    by (simp add: get_versions_from_dockerfile_def)
  then have all: "\<forall>p \<in> set [''dockerfiles/b/Dockerfile''].
      get_versions_from_dockerfile null_node_fs p = get_versions_from_dockerfile ?fs2 p"
    by simp
  have "dockerfile_tags null_node_fs [''dockerfiles/b/Dockerfile''] =
      dockerfile_tags ?fs2 [''dockerfiles/b/Dockerfile'']"
    using builder_deterministic [of "[''dockerfiles/b/Dockerfile'']" null_node_fs ?fs2] all
    by blast
  with node_b_tags have second: "dockerfile_tags ?fs2 [''dockerfiles/b/Dockerfile''] =
     Inr [(''dockerfiles/b/Dockerfile'',
           [''3-14'', ''3-14.15'', ''3-14.15.0'', ''3.9-14'', ''3.9-14.15'',
            ''3.9-14.15.0'', ''3.9.1-14'', ''3.9.1-14.15'', ''3.9.1-14.15.0''])]"
    by simp
  have perm: "mset [artifact_A, artifact_B, artifact_C] = mset [artifact_B, artifact_C, artifact_A]"
    by simp
  have "build_tags [artifact_A, artifact_B, artifact_C] =
      build_tags [artifact_B, artifact_C, artifact_A]"
    using builder_deterministic [of _ _ _ "[artifact_A, artifact_B, artifact_C]"
        "[artifact_B, artifact_C, artifact_A]"] perm scrambled_strict
    by blast
  with scrambled_tags(1) have other: "build_tags [artifact_A, artifact_B, artifact_C] =
     Inr [(''dockerfiles/3.10-12.0/Dockerfile'',
           [''3-12'', ''3-12.0'', ''3-12.0.1'', ''3.10-12'', ''3.10-12.0'', ''3.10-12.0.1'',
            ''3.10.0-12'', ''3.10.0-12.0'', ''3.10.0-12.0.1'']),
          (''dockerfiles/3.9-14.15/Dockerfile'',
           [''3-14'', ''3-14.15'', ''3-14.15.0'', ''3.9-14'', ''3.9-14.15'',
            ''3.9-14.15.0'', ''3.9.1-14'', ''3.9.1-14.15'', ''3.9.1-14.15.0'']),
          (''dockerfiles/3.9-14.2/Dockerfile'',
           [''3-14.2'', ''3-14.2.0'', ''3.9-14.2'', ''3.9-14.2.0'',
            ''3.9.1-14.2'', ''3.9.1-14.2.0''])]"
    by simp
  from same node_b_tags second perm other show ?thesis by blast
qed

lemma update_other_key: "k \<noteq> key \<Longrightarrow> map_of (AList.update key v kvs) k = map_of kvs k"
  by (simp add: update_conv')

lemma update_filter_others:
  "filter (\<lambda>kv. fst kv \<noteq> key) (AList.update key v kvs) = filter (\<lambda>kv. fst kv \<noteq> key) kvs"
  by (induction kvs) auto

text \<open>
  C7, as amended. When the configuration document is a dictionary and the builder
  returns a file-to-tags mapping, the emitter returns a dictionary whose \<^verbatim>\<open>jobs\<close>
  entry is a dictionary with the single key \<^verbatim>\<open>include\<close>, holding the stage records
  of the mapping in its order; every other top-level key keeps its value, and the
  other top-level entries keep their order.
\<close>

theorem add_stages_replaces_jobs:
  assumes "dockerfile_tags fs paths = Inr tags_of"
  shows "\<exists>kvs'. travis_yaml_add_stages fs (YDict kvs) paths = Inr (YDict kvs') \<and>
     map_of kvs' (YStr ''jobs'') =
       Some (YDict [(YStr ''include'',
                     YList (map (\<lambda>(df, tags). make_build_stage df tags) tags_of))]) \<and>
     (\<forall>k. k \<noteq> YStr ''jobs'' \<longrightarrow> map_of kvs' k = map_of kvs k) \<and>
     filter (\<lambda>kv. fst kv \<noteq> YStr ''jobs'') kvs' = filter (\<lambda>kv. fst kv \<noteq> YStr ''jobs'') kvs"
proof -
  let ?kvs' = "AList.update (YStr ''jobs'') (jobs_value tags_of) kvs"
  have "travis_yaml_add_stages fs (YDict kvs) paths = Inr (YDict ?kvs')"
    using assms by (simp add: travis_yaml_add_stages_def)
  moreover have "map_of ?kvs' (YStr ''jobs'') =
       Some (YDict [(YStr ''include'',
                     YList (map (\<lambda>(df, tags). make_build_stage df tags) tags_of))])"
    by (simp add: update_conv' jobs_value_def)
  moreover have "\<forall>k. k \<noteq> YStr ''jobs'' \<longrightarrow> map_of ?kvs' k = map_of kvs k"
    by (simp add: update_other_key)
  moreover have "filter (\<lambda>kv. fst kv \<noteq> YStr ''jobs'') ?kvs' =
      filter (\<lambda>kv. fst kv \<noteq> YStr ''jobs'') kvs"
    by (rule update_filter_others)
  ultimately show ?thesis by blast
qed

lemma travis_doc_stages:
  "travis_yaml_add_stages null_node_fs travis_doc [''dockerfiles/b/Dockerfile''] =
     Inr (YDict [(YStr ''language'', YStr ''python''),
                 (YStr ''jobs'',
                  YDict [(YStr ''include'',
                          YList [make_build_stage ''dockerfiles/b/Dockerfile''
                                   [''3-14'', ''3-14.15'', ''3-14.15.0'', ''3.9-14'', ''3.9-14.15'',
                                    ''3.9-14.15.0'', ''3.9.1-14'', ''3.9.1-14.15'',
                                    ''3.9.1-14.15.0'']])]),
                 (YStr ''services'', YList [YStr ''docker''])])"
  by code_simp

theorem add_stages_replaces_jobs_witness:
  "dockerfile_tags null_node_fs [''dockerfiles/b/Dockerfile''] =
     Inr [(''dockerfiles/b/Dockerfile'',
           [''3-14'', ''3-14.15'', ''3-14.15.0'', ''3.9-14'', ''3.9-14.15'',
            ''3.9-14.15.0'', ''3.9.1-14'', ''3.9.1-14.15'', ''3.9.1-14.15.0''])] \<and>
   (\<exists>kvs'. travis_yaml_add_stages null_node_fs (YDict [(YStr ''services'', YList [])])
              [''dockerfiles/b/Dockerfile''] = Inr (YDict kvs') \<and>
      map_of kvs' (YStr ''services'') = Some (YList []))"
proof -
  from add_stages_replaces_jobs [OF node_b_tags, of "[(YStr ''services'', YList [])]"]
  obtain kvs' where
    "travis_yaml_add_stages null_node_fs (YDict [(YStr ''services'', YList [])])
       [''dockerfiles/b/Dockerfile''] = Inr (YDict kvs')"
    "\<forall>k. k \<noteq> YStr ''jobs'' \<longrightarrow> map_of kvs' k = map_of [(YStr ''services'', YList [])] k"
    by blast
  then have "\<exists>kvs'. travis_yaml_add_stages null_node_fs (YDict [(YStr ''services'', YList [])])
              [''dockerfiles/b/Dockerfile''] = Inr (YDict kvs') \<and>
      map_of kvs' (YStr ''services'') = Some (YList [])"
    by auto
  with node_b_tags show ?thesis by (rule conjI)
qed

text \<open>
  The claim C7 as stated fails: the document has \<^verbatim>\<open>allow_failures\<close> and
  \<^verbatim>\<open>fast_finish\<close> beside \<^verbatim>\<open>include\<close> in its \<^verbatim>\<open>jobs\<close> section, and the emitter's
  result has neither.
\<close>

theorem add_stages_drops_jobs_siblings:
  "yaml_path travis_doc [''jobs'', ''allow_failures''] =
     Some (YList [YDict [(YStr ''python'', YStr ''nightly'')]]) \<and>
   (\<exists>d. travis_yaml_add_stages null_node_fs travis_doc [''dockerfiles/b/Dockerfile''] = Inr d \<and>
      yaml_path d [''jobs'', ''allow_failures''] = None \<and>
      yaml_path d [''jobs'', ''fast_finish''] = None)"
proof -
  have "yaml_path travis_doc [''jobs'', ''allow_failures''] =
     Some (YList [YDict [(YStr ''python'', YStr ''nightly'')]])"
    by code_simp
  moreover have "\<exists>d. travis_yaml_add_stages null_node_fs travis_doc [''dockerfiles/b/Dockerfile''] = Inr d \<and>
      yaml_path d [''jobs'', ''allow_failures''] = None \<and>
      yaml_path d [''jobs'', ''fast_finish''] = None"
    unfolding travis_doc_stages by simp
  ultimately show ?thesis by (rule conjI)
qed

section \<open>A failing run\<close>


















end
